theory Spec2Isabelle
  imports Main
begin

section \<open>Data model\<close>

text \<open>
  The source declares \<^verbatim>\<open>type Mark = 'X' | 'O' | null\<close> and a board is a \<^verbatim>\<open>Mark[]\<close>.
  A non-null mark is a value of \<open>Mark\<close> (\<open>MarkX\<close> for \<^verbatim>\<open>'X'\<close>, \<open>MarkO\<close> for
  \<^verbatim>\<open>'O'\<close>; the bare letter \<open>O\<close> is taken by relation composition); a cell is a
  \<open>Mark option\<close> with \<open>None\<close> for \<^verbatim>\<open>null\<close>; a board is the list of its cells.
\<close>

datatype Mark = MarkX | MarkO

type_synonym cell = "Mark option"
type_synonym board = "cell list"

text \<open>
  \<^verbatim>\<open>checkWinner\<close> returns \<^verbatim>\<open>Mark | 'draw' | null\<close>: the winning mark, the string
  \<^verbatim>\<open>'draw'\<close>, or \<^verbatim>\<open>null\<close> while the game goes on.
\<close>

datatype outcome = Winner Mark | DrawGame | Ongoing

text \<open>
  Scores are JavaScript numbers. The search starts from \<^verbatim>\<open>-Infinity\<close> and
  \<^verbatim>\<open>Infinity\<close> and otherwise computes \<^verbatim>\<open>10 - depth\<close>, \<^verbatim>\<open>depth - 10\<close> and \<^verbatim>\<open>0\<close>
  from an integral depth, so a score is an integer or one of the two infinities.
\<close>

datatype score = NegInf | Fin int | PosInf

fun score_le :: "score \<Rightarrow> score \<Rightarrow> bool" where
  "score_le NegInf _ = True"
| "score_le (Fin a) (Fin b) = (a \<le> b)"
| "score_le (Fin a) PosInf = True"
| "score_le PosInf PosInf = True"
| "score_le _ _ = False"

instantiation score :: linorder
begin

definition less_eq_score :: "score \<Rightarrow> score \<Rightarrow> bool" where
  "less_eq_score a b = score_le a b"

definition less_score :: "score \<Rightarrow> score \<Rightarrow> bool" where
  "less_score a b = (score_le a b \<and> \<not> score_le b a)"

instance
proof
  fix x y z :: score
  show "(x < y) = (x \<le> y \<and> \<not> y \<le> x)"
    by (simp add: less_eq_score_def less_score_def)
  show "x \<le> x"
    by (cases x) (simp_all add: less_eq_score_def)
  show "x \<le> y \<Longrightarrow> y \<le> z \<Longrightarrow> x \<le> z"
    by (cases x; cases y; cases z) (simp_all add: less_eq_score_def)
  show "x \<le> y \<Longrightarrow> y \<le> x \<Longrightarrow> x = y"
    by (cases x; cases y) (simp_all add: less_eq_score_def)
  show "x \<le> y \<or> y \<le> x"
    by (cases x; cases y) (auto simp: less_eq_score_def)
qed

end

section \<open>The outcome evaluator\<close>

text \<open>The constant table of \<^verbatim>\<open>checkWinner\<close>, in the order of the source.\<close>

definition patterns :: "(nat \<times> nat \<times> nat) list" where
  "patterns =
     [(0, 1, 2), (3, 4, 5), (6, 7, 8),
      (0, 3, 6), (1, 4, 7), (2, 5, 8),
      (0, 4, 8), (2, 4, 6)]"

text \<open>
  \<^verbatim>\<open>cells[a]\<close>: reading a JavaScript array past its end gives \<^verbatim>\<open>undefined\<close>, which
  is falsy and equal to no mark, exactly as \<^verbatim>\<open>null\<close> is in the tests of
  \<^verbatim>\<open>checkWinner\<close>; so an out-of-range read is \<open>None\<close>.
\<close>

definition cell_at :: "board \<Rightarrow> nat \<Rightarrow> cell" where
  "cell_at cells i = (if i < length cells then cells ! i else None)"

text \<open>
  The loop \<^verbatim>\<open>for (let line of patterns)\<close>: the first line whose three cells hold the
  same truthy value returns that value.
\<close>

fun firstLine :: "board \<Rightarrow> (nat \<times> nat \<times> nat) list \<Rightarrow> Mark option" where
  "firstLine cells [] = None"
| "firstLine cells ((a, b, c) # rest) =
     (if cell_at cells a \<noteq> None \<and> cell_at cells a = cell_at cells b
         \<and> cell_at cells a = cell_at cells c
      then cell_at cells a
      else firstLine cells rest)"

definition checkWinner :: "board \<Rightarrow> outcome" where
  "checkWinner cells =
     (case firstLine cells patterns of
        Some m \<Rightarrow> Winner m
      | None \<Rightarrow> if list_all (\<lambda>val. val \<noteq> None) cells then DrawGame else Ongoing)"

section \<open>The search\<close>

text \<open>
  \<^verbatim>\<open>board.map((val, i) => (val === null ? i : -1)).filter(i => i !== -1)\<close>: the
  indices of the empty cells, ascending.
\<close>

definition emptyCells :: "board \<Rightarrow> nat list" where
  "emptyCells board =
     map nat (filter (\<lambda>i. i \<noteq> - 1)
       (map (\<lambda>(i, val). if val = None then int i else - 1) (enumerate 0 board)))"

text \<open>
  \<^verbatim>\<open>minimax\<close> writes into the array it is given, so the model passes the board through
  every call and returns it beside the score. The recursion of the source is on the
  mutated array, whose descent is a property to be proved and not a syntactic fact, so
  the model carries fuel: \<open>None\<close> means that the fuel ran out before the call returned.
  The flag \<open>prune\<close> switches the test \<^verbatim>\<open>if (beta <= alpha) break\<close>; the source is the
  instance \<open>prune = True\<close>, and \<open>prune = False\<close> is the same recursion without the
  cutoff.

  \<open>maxLoop\<close> and \<open>minLoop\<close> are the two \<^verbatim>\<open>for (let move of moves)\<close> loops; their
  arguments are the variables live in the loop (\<open>board\<close>, \<open>depth\<close>, \<open>alpha\<close>,
  \<open>beta\<close>, \<open>maxEval\<close> or \<open>minEval\<close>) and the moves still to visit.
\<close>

function minimax_fuel :: "bool \<Rightarrow> nat \<Rightarrow> board \<Rightarrow> int \<Rightarrow> bool \<Rightarrow> score \<Rightarrow> score \<Rightarrow> (score \<times> board) option"
  and maxLoop :: "bool \<Rightarrow> nat \<Rightarrow> board \<Rightarrow> int \<Rightarrow> score \<Rightarrow> score \<Rightarrow> score \<Rightarrow> nat list \<Rightarrow> (score \<times> board) option"
  and minLoop :: "bool \<Rightarrow> nat \<Rightarrow> board \<Rightarrow> int \<Rightarrow> score \<Rightarrow> score \<Rightarrow> score \<Rightarrow> nat list \<Rightarrow> (score \<times> board) option"
where
  "minimax_fuel prune 0 board depth isCPU alpha beta = None"
| "minimax_fuel prune (Suc n) board depth isCPU alpha beta =
     (case checkWinner board of
        Winner MarkO \<Rightarrow> Some (Fin (10 - depth), board)
      | Winner MarkX \<Rightarrow> Some (Fin (depth - 10), board)
      | DrawGame \<Rightarrow> Some (Fin 0, board)
      | Ongoing \<Rightarrow>
          if isCPU then maxLoop prune n board depth alpha beta NegInf (emptyCells board)
          else minLoop prune n board depth alpha beta PosInf (emptyCells board))"
| "maxLoop prune n board depth alpha beta maxEval [] = Some (maxEval, board)"
| "maxLoop prune n board depth alpha beta maxEval (move # rest) =
     (case minimax_fuel prune n (board[move := Some MarkO]) (depth + 1) False alpha beta of
        None \<Rightarrow> None
      | Some (score, board1) \<Rightarrow>
          if prune \<and> beta \<le> max alpha score
          then Some (max maxEval score, board1[move := None])
          else maxLoop prune n (board1[move := None]) depth (max alpha score) beta
                 (max maxEval score) rest)"
| "minLoop prune n board depth alpha beta minEval [] = Some (minEval, board)"
| "minLoop prune n board depth alpha beta minEval (move # rest) =
     (case minimax_fuel prune n (board[move := Some MarkX]) (depth + 1) True alpha beta of
        None \<Rightarrow> None
      | Some (score, board1) \<Rightarrow>
          if prune \<and> min beta score \<le> alpha
          then Some (min minEval score, board1[move := None])
          else minLoop prune n (board1[move := None]) depth alpha (min beta score)
                 (min minEval score) rest)"
  by pat_completeness auto

text \<open>
  Each call of \<open>minimax_fuel\<close> from a loop keeps the fuel and leaves the loop, each
  call of a loop from \<open>minimax_fuel\<close> spends one unit, and a loop calls itself on
  the rest of its moves.
\<close>

termination
  by (relation "inv_image (less_than <*lex*> less_than)
        (\<lambda>x. case x of
           Inl (p, n, r) \<Rightarrow> (n, 0)
         | Inr (Inl (p, n, b, d, a, be, m, ms)) \<Rightarrow> (n, Suc (length ms))
         | Inr (Inr (p, n, b, d, a, be, m, ms)) \<Rightarrow> (n, Suc (length ms)))") auto

text \<open>
  The function of the source, with fuel for one call more than the board has cells
  (every call fills a cell, so this fuel always suffices, as is proved below), and the
  same recursion with the cutoff removed.
\<close>

definition minimax :: "board \<Rightarrow> int \<Rightarrow> bool \<Rightarrow> score \<Rightarrow> score \<Rightarrow> (score \<times> board) option" where
  "minimax board depth isCPU alpha beta =
     minimax_fuel True (Suc (length board)) board depth isCPU alpha beta"

definition minimax_noprune :: "board \<Rightarrow> int \<Rightarrow> bool \<Rightarrow> score \<Rightarrow> score \<Rightarrow> (score \<times> board) option" where
  "minimax_noprune board depth isCPU alpha beta =
     minimax_fuel False (Suc (length board)) board depth isCPU alpha beta"

section \<open>The move selector\<close>

text \<open>
  The loop \<^verbatim>\<open>for (let i of candidates)\<close> of \<^verbatim>\<open>getBestMove\<close>, with its live variables
  \<open>currentBoard\<close>, \<open>topScore\<close> and \<open>bestMove\<close>. The source has no \<^verbatim>\<open>throw\<close> and no
  other failing operation, so \<open>None\<close> again only means that a search did not return.
\<close>

fun bestLoop :: "board \<Rightarrow> score \<Rightarrow> nat \<Rightarrow> nat list \<Rightarrow> (nat \<times> board) option" where
  "bestLoop currentBoard topScore bestMove [] = Some (bestMove, currentBoard)"
| "bestLoop currentBoard topScore bestMove (i # rest) =
     (case minimax (currentBoard[i := Some MarkO]) 0 False NegInf PosInf of
        None \<Rightarrow> None
      | Some (score, board1) \<Rightarrow>
          if score > topScore
          then bestLoop (board1[i := None]) score i rest
          else bestLoop (board1[i := None]) topScore bestMove rest)"

definition getBestMove :: "board \<Rightarrow> (nat \<times> board) option" where
  "getBestMove currentBoard = bestLoop currentBoard NegInf 0 (emptyCells currentBoard)"

section \<open>Predicates of the specification\<close>

text \<open>
  A win-line \<open>l\<close> is complete for the mark \<open>m\<close> on a board when its three cells all hold
  \<open>m\<close>.
\<close>

definition line_full :: "board \<Rightarrow> nat \<times> nat \<times> nat \<Rightarrow> Mark \<Rightarrow> bool" where
  "line_full cells l m =
     (case l of (a, b, c) \<Rightarrow>
        cell_at cells a = Some m \<and> cell_at cells b = Some m \<and> cell_at cells c = Some m)"

text \<open>The cell \<open>i\<close> is one of the three cells of the line \<open>l\<close>.\<close>

definition on_line :: "nat \<Rightarrow> nat \<times> nat \<times> nat \<Rightarrow> bool" where
  "on_line i l = (case l of (a, b, c) \<Rightarrow> i = a \<or> i = b \<or> i = c)"

text \<open>
  Placing the mark \<open>m\<close> on the cell \<open>i\<close> immediately completes a win-line: the cell is
  empty, and one of the eight lines through it holds \<open>m\<close> on all three cells once \<open>m\<close>
  is placed.
\<close>

definition completes :: "board \<Rightarrow> Mark \<Rightarrow> nat \<Rightarrow> bool" where
  "completes board m i =
     (i < length board \<and> board ! i = None
      \<and> (\<exists>l\<in>set patterns. on_line i l \<and> line_full (board[i := Some m]) l m))"

text \<open>
  The cell \<open>i\<close> is a one-move win for the mark \<open>m\<close>: it is empty, and once \<open>m\<close> is
  placed on it \<open>checkWinner\<close> reports the win of \<open>m\<close>.
\<close>

definition winning_cell :: "board \<Rightarrow> Mark \<Rightarrow> nat \<Rightarrow> bool" where
  "winning_cell board m i =
     (i < length board \<and> board ! i = None \<and> checkWinner (board[i := Some m]) = Winner m)"

text \<open>
  The game of the optimal-play property: from a given board the two sides move in turn,
  each taking the cell that \<open>getBestMove\<close> returns for it, until \<open>checkWinner\<close>
  reports a terminal board. \<open>getBestMove\<close> searches for \<^verbatim>\<open>'O'\<close> only, and the side
  \<^verbatim>\<open>'O'\<close> calls it as the component does
  (\<^verbatim>\<open>botMove = getBestMove([...board]); updated[botMove] = 'O'\<close>); the side \<^verbatim>\<open>'X'\<close> calls it
  on the board with the two marks exchanged. The first argument of \<open>selfPlay\<close> bounds the
  number of moves; \<open>None\<close> means that the game went on beyond it.
\<close>

fun otherMark :: "Mark \<Rightarrow> Mark" where
  "otherMark MarkX = MarkO"
| "otherMark MarkO = MarkX"

definition swapMarks :: "board \<Rightarrow> board" where
  "swapMarks board = map (map_option otherMark) board"

fun view :: "Mark \<Rightarrow> board \<Rightarrow> board" where
  "view MarkO board = board"
| "view MarkX board = swapMarks board"

fun selfPlay :: "nat \<Rightarrow> Mark \<Rightarrow> board \<Rightarrow> board option" where
  "selfPlay 0 m board = (if checkWinner board = Ongoing then None else Some board)"
| "selfPlay (Suc n) m board =
     (if checkWinner board \<noteq> Ongoing then Some board
      else case getBestMove (view m board) of
        None \<Rightarrow> None
      | Some (i, _) \<Rightarrow> selfPlay n (otherMark m) (board[i := Some m]))"

text \<open>
  What a search with the window \<open>(a, b)\<close> may return for a position of value \<open>v\<close>: the
  value itself when the result lies inside the window, a bound on the right side of it
  otherwise.
\<close>

definition fail_soft :: "score \<Rightarrow> score \<Rightarrow> score \<Rightarrow> score \<Rightarrow> bool" where
  "fail_soft a b v r = ((r \<le> a \<longrightarrow> v \<le> r) \<and> (a < r \<and> r < b \<longrightarrow> r = v) \<and> (b \<le> r \<longrightarrow> r \<le> v))"

section \<open>Scores\<close>

lemma score_le_simps [simp]:
  "NegInf \<le> s" "s \<le> PosInf"
  "Fin a \<le> Fin b \<longleftrightarrow> a \<le> b"
  "\<not> Fin a \<le> NegInf" "\<not> PosInf \<le> Fin a" "\<not> PosInf \<le> NegInf"
  by (cases s; simp add: less_eq_score_def)+

lemma score_less_simps [simp]:
  "Fin a < Fin b \<longleftrightarrow> a < b"
  "NegInf < Fin a" "Fin a < PosInf" "NegInf < PosInf"
  "\<not> s < NegInf" "\<not> PosInf < s"
  by (cases s; auto simp add: less_score_def)+

lemma score_max_min_Fin [simp]:
  "max (Fin a) (Fin b) = Fin (max a b)" "min (Fin a) (Fin b) = Fin (min a b)"
  "max NegInf s = s" "max s NegInf = s" "min PosInf s = s" "min s PosInf = s"
  by (cases s; simp add: max_def min_def)+

section \<open>Empty cells\<close>

lemma emptyCells_snoc:
  "emptyCells (xs @ [x]) = emptyCells xs @ (if x = None then [length xs] else [])"
  by (simp add: emptyCells_def enumerate_append_eq)

lemma emptyCells_filter: "emptyCells b = filter (\<lambda>i. b ! i = None) [0..<length b]"
proof (induction b rule: rev_induct)
  case Nil
  show ?case by (simp add: emptyCells_def)
next
  case (snoc x xs)
  have "filter (\<lambda>i. (xs @ [x]) ! i = None) [0..<length xs] = filter (\<lambda>i. xs ! i = None) [0..<length xs]"
    by (rule filter_cong) (auto simp: nth_append)
  with snoc show ?case by (simp add: emptyCells_snoc)
qed

lemma set_emptyCells: "set (emptyCells b) = {i. i < length b \<and> b ! i = None}"
  by (auto simp: emptyCells_filter)

lemma distinct_emptyCells: "distinct (emptyCells b)"
  by (simp add: emptyCells_filter)

lemma sorted_emptyCells: "sorted (emptyCells b)"
  by (simp add: emptyCells_filter sorted_wrt_filter)

lemma length_emptyCells_update:
  assumes "i < length b" "b ! i = None"
  shows "length (emptyCells (b[i := Some m])) < length (emptyCells b)"
proof -
  have "set (emptyCells (b[i := Some m])) \<subset> set (emptyCells b)"
    using assms by (auto simp: set_emptyCells nth_list_update)
  then have "card (set (emptyCells (b[i := Some m]))) < card (set (emptyCells b))"
    by (simp add: psubset_card_mono)
  then show ?thesis
    by (simp add: distinct_card distinct_emptyCells)
qed

lemma update_restore: "b ! i = None \<Longrightarrow> b[i := None] = b"
  by (metis list_update_id)


section \<open>The search restores the board\<close>

lemma maxLoop_frame:
  assumes IH: "\<And>b d c a be s b'. minimax_fuel p n b d c a be = Some (s, b') \<Longrightarrow> b' = b"
  shows "\<forall>i\<in>set moves. board ! i = None \<Longrightarrow>
    maxLoop p n board d a be m moves = Some (s, b') \<Longrightarrow> b' = board"
proof (induction moves arbitrary: a m)
  case Nil
  then show ?case by simp
next
  case (Cons mv rest)
  from Cons.prems(2) obtain r b1 where
    call: "minimax_fuel p n (board[mv := Some MarkO]) (d + 1) False a be = Some (r, b1)"
    by (auto split: option.splits)
  from IH [OF call] Cons.prems(1) have restored: "b1[mv := None] = board"
    by (simp add: update_restore)
  show ?case
  proof (cases "p \<and> be \<le> max a r")
    case True
    with Cons.prems(2) call restored show ?thesis by auto
  next
    case False
    with Cons.prems(2) call restored
    have "maxLoop p n board d (max a r) be (max m r) rest = Some (s, b')" by auto
    with Cons.IH Cons.prems(1) show ?thesis by simp
  qed
qed

lemma minLoop_frame:
  assumes IH: "\<And>b d c a be s b'. minimax_fuel p n b d c a be = Some (s, b') \<Longrightarrow> b' = b"
  shows "\<forall>i\<in>set moves. board ! i = None \<Longrightarrow>
    minLoop p n board d a be m moves = Some (s, b') \<Longrightarrow> b' = board"
proof (induction moves arbitrary: be m)
  case Nil
  then show ?case by simp
next
  case (Cons mv rest)
  from Cons.prems(2) obtain r b1 where
    call: "minimax_fuel p n (board[mv := Some MarkX]) (d + 1) True a be = Some (r, b1)"
    by (auto split: option.splits)
  from IH [OF call] Cons.prems(1) have restored: "b1[mv := None] = board"
    by (simp add: update_restore)
  show ?case
  proof (cases "p \<and> min be r \<le> a")
    case True
    with Cons.prems(2) call restored show ?thesis by auto
  next
    case False
    with Cons.prems(2) call restored
    have "minLoop p n board d a (min be r) (min m r) rest = Some (s, b')" by auto
    with Cons.IH Cons.prems(1) show ?thesis by simp
  qed
qed

lemma minimax_fuel_frame:
  "minimax_fuel p n b d c a be = Some (s, b') \<Longrightarrow> b' = b"
proof (induction n arbitrary: b d c a be s b')
  case 0
  then show ?case by simp
next
  case (Suc n)
  have empties: "\<forall>i\<in>set (emptyCells b). b ! i = None"
    by (simp add: set_emptyCells)
  show ?case
  proof (cases "checkWinner b")
    case (Winner m)
    with Suc.prems show ?thesis by (cases m) auto
  next
    case DrawGame
    with Suc.prems show ?thesis by auto
  next
    case Ongoing
    show ?thesis
    proof (cases c)
      case True
      with Ongoing Suc.prems have "maxLoop p n b d a be NegInf (emptyCells b) = Some (s, b')"
        by simp
      from maxLoop_frame [OF Suc.IH empties this] show ?thesis .
    next
      case False
      with Ongoing Suc.prems have "minLoop p n b d a be PosInf (emptyCells b) = Some (s, b')"
        by simp
      from minLoop_frame [OF Suc.IH empties this] show ?thesis .
    qed
  qed
qed

section \<open>The evaluator returns the first complete line\<close>

lemma firstLine_hit: "line_full cells l m \<Longrightarrow> firstLine cells (l # rest) = Some m"
  by (cases l) (simp add: line_full_def)

lemma firstLine_miss:
  "\<forall>m. \<not> line_full cells l m \<Longrightarrow> firstLine cells (l # rest) = firstLine cells rest"
  by (cases l) (auto simp: line_full_def)

lemma firstLine_Some_iff:
  "firstLine cells ps = Some m \<longleftrightarrow>
     (\<exists>k<length ps. line_full cells (ps ! k) m \<and> (\<forall>j<k. \<forall>m'. \<not> line_full cells (ps ! j) m'))"
proof (induction ps)
  case Nil
  show ?case by simp
next
  case (Cons l rest)
  show ?case
  proof (cases "\<exists>m'. line_full cells l m'")
    case True
    then obtain m' where m': "line_full cells l m'" by blast
    have same: "line_full cells l m \<Longrightarrow> m = m'"
      using m' by (cases l) (simp add: line_full_def)
    show ?thesis
    proof
      assume "firstLine cells (l # rest) = Some m"
      with firstLine_hit [OF m'] have "m = m'" by simp
      with m' have "line_full cells ((l # rest) ! 0) m \<and> (\<forall>j<0::nat. \<forall>m'. \<not> line_full cells ((l # rest) ! j) m')"
        by simp
      then show "\<exists>k<length (l # rest). line_full cells ((l # rest) ! k) m \<and>
          (\<forall>j<k. \<forall>m'. \<not> line_full cells ((l # rest) ! j) m')"
        by (intro exI[of _ 0]) simp
    next
      assume "\<exists>k<length (l # rest). line_full cells ((l # rest) ! k) m \<and>
          (\<forall>j<k. \<forall>m'. \<not> line_full cells ((l # rest) ! j) m')"
      then obtain k where k: "line_full cells ((l # rest) ! k) m"
        "\<forall>j<k. \<forall>m'. \<not> line_full cells ((l # rest) ! j) m'" by blast
      have "k = 0"
      proof (rule ccontr)
        assume "k \<noteq> 0"
        then have "0 < k" by simp
        with k(2) have "\<not> line_full cells ((l # rest) ! 0) m'" by blast
        with m' show False by simp
      qed
      with k(1) have "m = m'" using same by simp
      with firstLine_hit [OF m'] show "firstLine cells (l # rest) = Some m"
        by simp
    qed
  next
    case False
    have "(\<exists>k<length (l # rest). line_full cells ((l # rest) ! k) m \<and>
          (\<forall>j<k. \<forall>m'. \<not> line_full cells ((l # rest) ! j) m'))
        \<longleftrightarrow> (\<exists>k<length rest. line_full cells (rest ! k) m \<and>
          (\<forall>j<k. \<forall>m'. \<not> line_full cells (rest ! j) m'))" (is "?L \<longleftrightarrow> ?R")
    proof
      assume ?L
      then obtain k where k: "k < length (l # rest)" "line_full cells ((l # rest) ! k) m"
        "\<forall>j<k. \<forall>m'. \<not> line_full cells ((l # rest) ! j) m'" by blast
      from k(2) False obtain k' where k': "k = Suc k'" by (cases k) auto
      have "\<forall>j<k'. \<forall>m'. \<not> line_full cells (rest ! j) m'"
      proof (intro allI impI)
        fix j m' assume "j < k'"
        then have "Suc j < k" using k' by simp
        with k(3) have "\<not> line_full cells ((l # rest) ! Suc j) m'" by blast
        then show "\<not> line_full cells (rest ! j) m'" by simp
      qed
      with k k' show ?R by (intro exI[of _ k']) simp
    next
      assume ?R
      then obtain k where k: "k < length rest" "line_full cells (rest ! k) m"
        "\<forall>j<k. \<forall>m'. \<not> line_full cells (rest ! j) m'" by blast
      have "\<forall>j<Suc k. \<forall>m'. \<not> line_full cells ((l # rest) ! j) m'"
      proof (intro allI impI)
        fix j m' assume "j < Suc k"
        then show "\<not> line_full cells ((l # rest) ! j) m'"
          using False k(3) by (cases j) auto
      qed
      with k show ?L by (intro exI[of _ "Suc k"]) simp
    qed
    with firstLine_miss [of cells l rest] False Cons show ?thesis by simp
  qed
qed

lemma firstLine_None_iff:
  "firstLine cells ps = None \<longleftrightarrow> (\<forall>l\<in>set ps. \<forall>m. \<not> line_full cells l m)"
proof (induction ps)
  case Nil
  show ?case by simp
next
  case (Cons l rest)
  show ?case
  proof (cases "\<exists>m. line_full cells l m")
    case True
    then obtain m where lf: "line_full cells l m" by blast
    then have 1: "firstLine cells (l # rest) = Some m"
      by (rule firstLine_hit)
    from lf have 2: "\<not> (\<forall>l'\<in>set (l # rest). \<forall>m. \<not> line_full cells l' m)"
      by auto
    from 1 2 show ?thesis by simp
  next
    case False
    with firstLine_miss [of cells l rest] Cons show ?thesis by simp
  qed
qed

lemma no_line_index:
  "(\<forall>l\<in>set ps. \<forall>m. \<not> line_full cells l m) \<longleftrightarrow> (\<forall>k<length ps. \<forall>m. \<not> line_full cells (ps ! k) m)"
  by (metis in_set_conv_nth)

text \<open>
  Claim C1. On a board of nine cells \<open>checkWinner\<close> goes through the eight lines of
  \<open>patterns\<close> (three rows, three columns, two diagonals, in that order): it returns the
  win of \<open>m\<close> exactly when the first complete line is a line of \<open>m\<close>, a draw exactly
  when no line is complete and no cell is empty, and \<^verbatim>\<open>null\<close> (the game goes on) exactly
  when no line is complete and some cell is empty.
\<close>

theorem checkWinner_first_line:
  assumes "length cells = 9"
  shows "patterns = [(0, 1, 2), (3, 4, 5), (6, 7, 8), (0, 3, 6), (1, 4, 7), (2, 5, 8), (0, 4, 8), (2, 4, 6)]
    \<and> (checkWinner cells = Winner m \<longleftrightarrow>
         (\<exists>k<length patterns. line_full cells (patterns ! k) m
            \<and> (\<forall>j<k. \<forall>m'. \<not> line_full cells (patterns ! j) m')))
    \<and> (checkWinner cells = DrawGame \<longleftrightarrow>
         (\<forall>k<length patterns. \<forall>m'. \<not> line_full cells (patterns ! k) m') \<and> (\<forall>i<9. cells ! i \<noteq> None))
    \<and> (checkWinner cells = Ongoing \<longleftrightarrow>
         (\<forall>k<length patterns. \<forall>m'. \<not> line_full cells (patterns ! k) m') \<and> (\<exists>i<9. cells ! i = None))"
proof -
  have w: "checkWinner cells = Winner m \<longleftrightarrow> firstLine cells patterns = Some m"
    by (simp add: checkWinner_def split: option.splits)
  have d: "checkWinner cells = DrawGame \<longleftrightarrow>
      firstLine cells patterns = None \<and> (\<forall>i<9. cells ! i \<noteq> None)"
    using assms by (auto simp: checkWinner_def list_all_length split: option.splits)
  have g: "checkWinner cells = Ongoing \<longleftrightarrow>
      firstLine cells patterns = None \<and> (\<exists>i<9. cells ! i = None)"
    using assms by (auto simp: checkWinner_def list_all_length split: option.splits)
  show ?thesis
    unfolding w d g firstLine_Some_iff firstLine_None_iff no_line_index
    by (simp add: patterns_def)
qed

theorem checkWinner_first_line_witness:
  "checkWinner [Some MarkX, Some MarkX, Some MarkX, Some MarkO, Some MarkO, Some MarkO, None, None, None] = Winner MarkX
   \<and> (\<exists>k<length patterns.
         line_full [Some MarkX, Some MarkX, Some MarkX, Some MarkO, Some MarkO, Some MarkO, None, None, None] (patterns ! k) MarkX
         \<and> (\<forall>j<k. \<forall>m'. \<not> line_full [Some MarkX, Some MarkX, Some MarkX, Some MarkO, Some MarkO, Some MarkO, None, None, None] (patterns ! j) m'))"
  using checkWinner_first_line [of "[Some MarkX, Some MarkX, Some MarkX, Some MarkO, Some MarkO, Some MarkO, None, None, None]" MarkX]
  by (simp add: checkWinner_def patterns_def cell_at_def)

section \<open>The search returns\<close>

text \<open>
  A call with more fuel than the board has empty cells returns: every recursive call is
  on a board with one empty cell less.
\<close>

lemma maxLoop_total:
  assumes IH: "\<And>b d c a be. length (emptyCells b) < n \<Longrightarrow>
      \<exists>s. minimax_fuel p n b d c a be = Some (s, b)"
    and fuel: "length (emptyCells board) \<le> n"
  shows "\<forall>i\<in>set moves. i < length board \<and> board ! i = None \<Longrightarrow>
    \<exists>s. maxLoop p n board d a be m moves = Some (s, board)"
proof (induction moves arbitrary: a m)
  case Nil
  show ?case by simp
next
  case (Cons mv rest)
  then have mv: "mv < length board" "board ! mv = None" by simp_all
  have "length (emptyCells (board[mv := Some MarkO])) < n"
    using length_emptyCells_update [OF mv, of MarkO] fuel by linarith
  from IH [OF this] obtain r where
    call: "minimax_fuel p n (board[mv := Some MarkO]) (d + 1) False a be
      = Some (r, board[mv := Some MarkO])" by blast
  have restored: "(board[mv := Some MarkO])[mv := None] = board"
    using mv by (simp add: update_restore)
  from Cons.IH [of "max a r" "max m r"] Cons.prems
  obtain s where "maxLoop p n board d (max a r) be (max m r) rest = Some (s, board)"
    by auto
  with call restored show ?case by simp
qed

lemma minLoop_total:
  assumes IH: "\<And>b d c a be. length (emptyCells b) < n \<Longrightarrow>
      \<exists>s. minimax_fuel p n b d c a be = Some (s, b)"
    and fuel: "length (emptyCells board) \<le> n"
  shows "\<forall>i\<in>set moves. i < length board \<and> board ! i = None \<Longrightarrow>
    \<exists>s. minLoop p n board d a be m moves = Some (s, board)"
proof (induction moves arbitrary: be m)
  case Nil
  show ?case by simp
next
  case (Cons mv rest)
  then have mv: "mv < length board" "board ! mv = None" by simp_all
  have "length (emptyCells (board[mv := Some MarkX])) < n"
    using length_emptyCells_update [OF mv, of MarkX] fuel by linarith
  from IH [OF this] obtain r where
    call: "minimax_fuel p n (board[mv := Some MarkX]) (d + 1) True a be
      = Some (r, board[mv := Some MarkX])" by blast
  have restored: "(board[mv := Some MarkX])[mv := None] = board"
    using mv by (simp add: update_restore)
  from Cons.IH [of "min be r" "min m r"] Cons.prems
  obtain s where "minLoop p n board d a (min be r) (min m r) rest = Some (s, board)"
    by auto
  with call restored show ?case by simp
qed

lemma minimax_fuel_total:
  "length (emptyCells b) < n \<Longrightarrow> \<exists>s. minimax_fuel p n b d c a be = Some (s, b)"
proof (induction n arbitrary: b d c a be)
  case 0
  then show ?case by simp
next
  case (Suc n)
  have empties: "\<forall>i\<in>set (emptyCells b). i < length b \<and> b ! i = None"
    by (simp add: set_emptyCells)
  from Suc.prems have fuel: "length (emptyCells b) \<le> n" by simp
  show ?case
  proof (cases "checkWinner b")
    case (Winner m)
    then show ?thesis by (cases m) simp_all
  next
    case DrawGame
    then show ?thesis by simp
  next
    case Ongoing
    show ?thesis
    proof (cases c)
      case True
      from maxLoop_total [OF Suc.IH fuel empties]
      obtain s where "maxLoop p n b d a be NegInf (emptyCells b) = Some (s, b)" by blast
      with Ongoing True show ?thesis by simp
    next
      case False
      from minLoop_total [OF Suc.IH fuel empties]
      obtain s where "minLoop p n b d a be PosInf (emptyCells b) = Some (s, b)" by blast
      with Ongoing False show ?thesis by simp
    qed
  qed
qed

lemma length_emptyCells_le: "length (emptyCells b) \<le> length b"
  using length_filter_le [of "\<lambda>i. b ! i = None" "[0..<length b]"]
  by (simp add: emptyCells_filter)

text \<open>Fuel beyond what a call needs does not change its result.\<close>

lemma maxLoop_mono:
  assumes IH: "\<And>b d c a be r. minimax_fuel p n b d c a be = Some r \<Longrightarrow>
      minimax_fuel p n' b d c a be = Some r"
  shows "maxLoop p n board d a be m moves = Some r \<Longrightarrow>
    maxLoop p n' board d a be m moves = Some r"
proof (induction moves arbitrary: board a m)
  case Nil
  then show ?case by simp
next
  case (Cons mv rest)
  from Cons.prems obtain q where
    call: "minimax_fuel p n (board[mv := Some MarkO]) (d + 1) False a be = Some q"
    by (auto split: option.splits)
  note call' = IH [OF call]
  obtain s b1 where q: "q = (s, b1)" by (cases q)
  show ?case
  proof (cases "p \<and> be \<le> max a s")
    case True
    with Cons.prems call call' q show ?thesis by auto
  next
    case False
    with Cons.prems call q
    have "maxLoop p n (b1[mv := None]) d (max a s) be (max m s) rest = Some r" by auto
    from Cons.IH [OF this] False call' q show ?thesis by auto
  qed
qed

lemma minLoop_mono:
  assumes IH: "\<And>b d c a be r. minimax_fuel p n b d c a be = Some r \<Longrightarrow>
      minimax_fuel p n' b d c a be = Some r"
  shows "minLoop p n board d a be m moves = Some r \<Longrightarrow>
    minLoop p n' board d a be m moves = Some r"
proof (induction moves arbitrary: board be m)
  case Nil
  then show ?case by simp
next
  case (Cons mv rest)
  from Cons.prems obtain q where
    call: "minimax_fuel p n (board[mv := Some MarkX]) (d + 1) True a be = Some q"
    by (auto split: option.splits)
  note call' = IH [OF call]
  obtain s b1 where q: "q = (s, b1)" by (cases q)
  show ?case
  proof (cases "p \<and> min be s \<le> a")
    case True
    with Cons.prems call call' q show ?thesis by auto
  next
    case False
    with Cons.prems call q
    have "minLoop p n (b1[mv := None]) d a (min be s) (min m s) rest = Some r" by auto
    from Cons.IH [OF this] False call' q show ?thesis by auto
  qed
qed

lemma minimax_fuel_mono:
  "minimax_fuel p n b d c a be = Some r \<Longrightarrow> n \<le> n' \<Longrightarrow>
    minimax_fuel p n' b d c a be = Some r"
proof (induction n arbitrary: n' b d c a be r)
  case 0
  then show ?case by simp
next
  case (Suc n)
  from Suc.prems(2) obtain k where k: "n' = Suc k" "n \<le> k" by (cases n') auto
  have IH: "\<And>b d c a be r. minimax_fuel p n b d c a be = Some r \<Longrightarrow>
      minimax_fuel p k b d c a be = Some r"
    using Suc.IH k(2) by blast
  show ?case
  proof (cases "checkWinner b")
    case (Winner m)
    with Suc.prems(1) k show ?thesis by (cases m) auto
  next
    case DrawGame
    with Suc.prems(1) k show ?thesis by auto
  next
    case Ongoing
    show ?thesis
    proof (cases c)
      case True
      with Ongoing Suc.prems(1) have "maxLoop p n b d a be NegInf (emptyCells b) = Some r"
        by simp
      from maxLoop_mono [OF IH this] Ongoing True k show ?thesis by simp
    next
      case False
      with Ongoing Suc.prems(1) have "minLoop p n b d a be PosInf (emptyCells b) = Some r"
        by simp
      from minLoop_mono [OF IH this] Ongoing False k show ?thesis by simp
    qed
  qed
qed

lemma minimax_returns: "\<exists>s. minimax b d c a be = Some (s, b)"
  unfolding minimax_def
  by (rule minimax_fuel_total) (use length_emptyCells_le [of b] in simp)

lemma minimax_noprune_returns: "\<exists>s. minimax_noprune b d c a be = Some (s, b)"
  unfolding minimax_noprune_def
  by (rule minimax_fuel_total) (use length_emptyCells_le [of b] in simp)

lemma bestLoop_returns:
  "\<forall>i\<in>set moves. i < length board \<and> board ! i = None \<Longrightarrow>
    \<exists>k. bestLoop board t best moves = Some (k, board)"
proof (induction moves arbitrary: t best)
  case Nil
  show ?case by simp
next
  case (Cons i rest)
  then have i: "board ! i = None" by simp
  obtain s where
    call: "minimax (board[i := Some MarkO]) 0 False NegInf PosInf = Some (s, board[i := Some MarkO])"
    using minimax_returns by blast
  have restored: "(board[i := Some MarkO])[i := None] = board"
    using i by (simp add: update_restore)
  from Cons.IH [of s i] Cons.IH [of t best] Cons.prems call restored
  show ?case by auto
qed

lemma getBestMove_returns: "\<exists>k. getBestMove b = Some (k, b)"
  unfolding getBestMove_def
  by (rule bestLoop_returns) (simp add: set_emptyCells)

text \<open>
  Claim C10. \<open>minimax\<close> terminates on every input. Filling an empty cell leaves strictly
  fewer empty cells, so every recursive call is on a board with fewer empty cells than
  its caller's; hence any fuel above the number of empty cells lets the call return, for
  every board, depth, flag and bounds, and all such fuels (among them the one
  \<open>minimax\<close> takes) give the same result.
\<close>

theorem minimax_terminates:
  "(\<forall>move\<in>set (emptyCells board).
      length (emptyCells (board[move := Some MarkO])) < length (emptyCells board)
      \<and> length (emptyCells (board[move := Some MarkX])) < length (emptyCells board))
   \<and> (\<forall>n>length (emptyCells board).
        \<exists>s. minimax_fuel True n board depth isCPU alpha beta = Some (s, board)
          \<and> minimax board depth isCPU alpha beta = Some (s, board))"
proof (intro conjI ballI allI impI)
  fix move assume "move \<in> set (emptyCells board)"
  then have mv: "move < length board" "board ! move = None"
    by (simp_all add: set_emptyCells)
  from length_emptyCells_update [OF mv]
  show "length (emptyCells (board[move := Some MarkO])) < length (emptyCells board)"
    "length (emptyCells (board[move := Some MarkX])) < length (emptyCells board)"
    by blast+
next
  fix n assume n: "length (emptyCells board) < n"
  from minimax_fuel_total [OF n] obtain s where
    s: "minimax_fuel True n board depth isCPU alpha beta = Some (s, board)" by blast
  have "minimax_fuel True (max n (Suc (length board))) board depth isCPU alpha beta = Some (s, board)"
    by (rule minimax_fuel_mono [OF s]) simp
  moreover obtain s' where s': "minimax board depth isCPU alpha beta = Some (s', board)"
    using minimax_returns by blast
  then have "minimax_fuel True (max n (Suc (length board))) board depth isCPU alpha beta = Some (s', board)"
    unfolding minimax_def by (rule minimax_fuel_mono) simp
  ultimately have "s' = s" by simp
  with s s' show "\<exists>s. minimax_fuel True n board depth isCPU alpha beta = Some (s, board)
          \<and> minimax board depth isCPU alpha beta = Some (s, board)" by blast
qed

theorem minimax_terminates_witness:
  "\<exists>s. minimax_fuel True 3 [Some MarkX, None, Some MarkO, Some MarkO, Some MarkX, Some MarkX, None, Some MarkX, Some MarkO] 0 True NegInf PosInf
          = Some (s, [Some MarkX, None, Some MarkO, Some MarkO, Some MarkX, Some MarkX, None, Some MarkX, Some MarkO])
      \<and> minimax [Some MarkX, None, Some MarkO, Some MarkO, Some MarkX, Some MarkX, None, Some MarkX, Some MarkO] 0 True NegInf PosInf
          = Some (s, [Some MarkX, None, Some MarkO, Some MarkO, Some MarkX, Some MarkX, None, Some MarkX, Some MarkO])"
proof -
  have "length (emptyCells [Some MarkX, None, Some MarkO, Some MarkO, Some MarkX, Some MarkX, None, Some MarkX, Some MarkO]) < 3"
    by (simp add: emptyCells_def)
  with minimax_terminates [of "[Some MarkX, None, Some MarkO, Some MarkO, Some MarkX, Some MarkX, None, Some MarkX, Some MarkO]" 0 True NegInf PosInf]
  show ?thesis by blast
qed

text \<open>
  Claim C5. For every board, depth, flag and bounds, \<open>minimax\<close> returns and the array
  it returns holds the cells it was given (whatever the fuel, and on the path through
  the cutoff as on the others); \<open>getBestMove\<close> likewise returns its input board.
\<close>

theorem search_restores_board:
  "(\<exists>s. minimax board depth isCPU alpha beta = Some (s, board))
   \<and> (\<forall>n s board'. minimax_fuel True n board depth isCPU alpha beta = Some (s, board') \<longrightarrow> board' = board)
   \<and> (\<exists>i. getBestMove board = Some (i, board))"
  using minimax_returns getBestMove_returns minimax_fuel_frame by blast

theorem search_restores_board_witness:
  "(\<exists>s. minimax [Some MarkX, None, Some MarkO, Some MarkO, Some MarkX, Some MarkX, None, Some MarkX, Some MarkO] 0 True NegInf PosInf
       = Some (s, [Some MarkX, None, Some MarkO, Some MarkO, Some MarkX, Some MarkX, None, Some MarkX, Some MarkO]))
   \<and> (\<exists>i. getBestMove [Some MarkX, None, Some MarkO, Some MarkO, Some MarkX, Some MarkX, None, Some MarkX, Some MarkO]
       = Some (i, [Some MarkX, None, Some MarkO, Some MarkO, Some MarkX, Some MarkX, None, Some MarkX, Some MarkO]))"
  using search_restores_board [of "[Some MarkX, None, Some MarkO, Some MarkO, Some MarkX, Some MarkX, None, Some MarkX, Some MarkO]" 0 True NegInf PosInf]
  by blast

section \<open>The range of the scores\<close>

text \<open>
  From a depth \<open>d \<ge> 0\<close> with room for the remaining moves, a score lies between
  \<open>d - 10\<close> and \<open>10 - d\<close>, and between \<open>d - 9\<close> and \<open>9 - d\<close> when the board is
  not terminal: the terminal boards below it are at least one move deeper.
\<close>

lemma maxLoop_range:
  assumes IH: "\<And>b c a be s b'. d + 1 + int (length (emptyCells b)) \<le> 10 \<Longrightarrow>
      minimax_fuel p n b (d + 1) c a be = Some (s, b') \<Longrightarrow> Fin (d - 9) \<le> s \<and> s \<le> Fin (9 - d)"
    and room: "d + int (length (emptyCells board)) \<le> 10"
  shows "\<forall>i\<in>set moves. i < length board \<and> board ! i = None \<Longrightarrow>
    (m = NegInf \<and> moves \<noteq> []) \<or> (Fin (d - 9) \<le> m \<and> m \<le> Fin (9 - d)) \<Longrightarrow>
    maxLoop p n board d a be m moves = Some (s, b') \<Longrightarrow>
    Fin (d - 9) \<le> s \<and> s \<le> Fin (9 - d)"
proof (induction moves arbitrary: a m)
  case Nil
  then show ?case by simp
next
  case (Cons mv rest)
  then have mv: "mv < length board" "board ! mv = None" by simp_all
  from Cons.prems(3) obtain r b1 where
    call: "minimax_fuel p n (board[mv := Some MarkO]) (d + 1) False a be = Some (r, b1)"
    by (auto split: option.splits)
  have "d + 1 + int (length (emptyCells (board[mv := Some MarkO]))) \<le> 10"
    using length_emptyCells_update [OF mv, of MarkO] room by linarith
  from IH [OF this call] have r: "Fin (d - 9) \<le> r" "r \<le> Fin (9 - d)" by simp_all
  from minimax_fuel_frame [OF call] mv have restored: "b1[mv := None] = board"
    by (simp add: update_restore)
  from Cons.prems(2) r have m': "Fin (d - 9) \<le> max m r \<and> max m r \<le> Fin (9 - d)"
    by (cases r; cases m) (auto simp: max_def)
  show ?case
  proof (cases "p \<and> be \<le> max a r")
    case True
    with Cons.prems(3) call m' show ?thesis by auto
  next
    case False
    with Cons.prems(3) call restored
    have "maxLoop p n board d (max a r) be (max m r) rest = Some (s, b')" by auto
    with Cons.IH [of "max m r" "max a r"] Cons.prems(1) m' show ?thesis by simp
  qed
qed

lemma minLoop_range:
  assumes IH: "\<And>b c a be s b'. d + 1 + int (length (emptyCells b)) \<le> 10 \<Longrightarrow>
      minimax_fuel p n b (d + 1) c a be = Some (s, b') \<Longrightarrow> Fin (d - 9) \<le> s \<and> s \<le> Fin (9 - d)"
    and room: "d + int (length (emptyCells board)) \<le> 10"
  shows "\<forall>i\<in>set moves. i < length board \<and> board ! i = None \<Longrightarrow>
    (m = PosInf \<and> moves \<noteq> []) \<or> (Fin (d - 9) \<le> m \<and> m \<le> Fin (9 - d)) \<Longrightarrow>
    minLoop p n board d a be m moves = Some (s, b') \<Longrightarrow>
    Fin (d - 9) \<le> s \<and> s \<le> Fin (9 - d)"
proof (induction moves arbitrary: be m)
  case Nil
  then show ?case by simp
next
  case (Cons mv rest)
  then have mv: "mv < length board" "board ! mv = None" by simp_all
  from Cons.prems(3) obtain r b1 where
    call: "minimax_fuel p n (board[mv := Some MarkX]) (d + 1) True a be = Some (r, b1)"
    by (auto split: option.splits)
  have "d + 1 + int (length (emptyCells (board[mv := Some MarkX]))) \<le> 10"
    using length_emptyCells_update [OF mv, of MarkX] room by linarith
  from IH [OF this call] have r: "Fin (d - 9) \<le> r" "r \<le> Fin (9 - d)" by simp_all
  from minimax_fuel_frame [OF call] mv have restored: "b1[mv := None] = board"
    by (simp add: update_restore)
  from Cons.prems(2) r have m': "Fin (d - 9) \<le> min m r \<and> min m r \<le> Fin (9 - d)"
    by (cases r; cases m) (auto simp: min_def)
  show ?case
  proof (cases "p \<and> min be r \<le> a")
    case True
    with Cons.prems(3) call m' show ?thesis by auto
  next
    case False
    with Cons.prems(3) call restored
    have "minLoop p n board d a (min be r) (min m r) rest = Some (s, b')" by auto
    with Cons.IH [of "min m r" "min be r"] Cons.prems(1) m' show ?thesis by simp
  qed
qed

lemma Ongoing_has_empty: "checkWinner b = Ongoing \<Longrightarrow> emptyCells b \<noteq> []"
proof -
  assume "checkWinner b = Ongoing"
  then have "\<not> list_all (\<lambda>val. val \<noteq> None) b"
    by (auto simp: checkWinner_def split: option.splits if_splits)
  then obtain i where "i < length b" "b ! i = None"
    by (auto simp: list_all_length)
  then have "i \<in> set (emptyCells b)" by (simp add: set_emptyCells)
  then show ?thesis by auto
qed

lemma minimax_fuel_range:
  "0 \<le> d \<Longrightarrow> d + int (length (emptyCells b)) \<le> 10 \<Longrightarrow>
   minimax_fuel p n b d c a be = Some (s, b') \<Longrightarrow>
   Fin (d - 10) \<le> s \<and> s \<le> Fin (10 - d)
   \<and> (checkWinner b = Ongoing \<longrightarrow> Fin (d - 9) \<le> s \<and> s \<le> Fin (9 - d))"
proof (induction n arbitrary: b d c a be s b')
  case 0
  then show ?case by simp
next
  case (Suc n)
  have empties: "\<forall>i\<in>set (emptyCells b). i < length b \<and> b ! i = None"
    by (simp add: set_emptyCells)
  have IH: "\<And>b c a be s b'. d + 1 + int (length (emptyCells b)) \<le> 10 \<Longrightarrow>
      minimax_fuel p n b (d + 1) c a be = Some (s, b') \<Longrightarrow> Fin (d - 9) \<le> s \<and> s \<le> Fin (9 - d)"
  proof -
    fix b c a be s b'
    assume "d + 1 + int (length (emptyCells b)) \<le> 10"
      and "minimax_fuel p n b (d + 1) c a be = Some (s, b')"
    with Suc.IH [of "d + 1" b c a be s b'] Suc.prems(1)
    show "Fin (d - 9) \<le> s \<and> s \<le> Fin (9 - d)" by simp
  qed
  show ?case
  proof (cases "checkWinner b")
    case (Winner m)
    with Suc.prems show ?thesis by (cases m) auto
  next
    case DrawGame
    with Suc.prems show ?thesis by auto
  next
    case Ongoing
    then have ne: "emptyCells b \<noteq> []" by (rule Ongoing_has_empty)
    have "Fin (d - 9) \<le> s \<and> s \<le> Fin (9 - d)"
    proof (cases c)
      case True
      with Ongoing Suc.prems(3) have "maxLoop p n b d a be NegInf (emptyCells b) = Some (s, b')"
        by simp
      from maxLoop_range [OF IH Suc.prems(2) empties _ this] ne show ?thesis by simp
    next
      case False
      with Ongoing Suc.prems(3) have "minLoop p n b d a be PosInf (emptyCells b) = Some (s, b')"
        by simp
      from minLoop_range [OF IH Suc.prems(2) empties _ this] ne show ?thesis by simp
    qed
    then show ?thesis by (cases s) auto
  qed
qed

section \<open>Lines and single moves\<close>

lemma cell_at_update:
  "i < length b \<Longrightarrow> cell_at (b[i := v]) j = (if j = i then v else cell_at b j)"
  by (simp add: cell_at_def)

lemma cell_at_empty: "i < length b \<Longrightarrow> b ! i = None \<Longrightarrow> cell_at b i = None"
  by (simp add: cell_at_def)

lemma line_full_off_line:
  "i < length b \<Longrightarrow> \<not> on_line i l \<Longrightarrow> line_full (b[i := v]) l m = line_full b l m"
  by (cases l) (simp add: line_full_def on_line_def cell_at_update)

lemma line_full_on_line:
  "i < length b \<Longrightarrow> on_line i l \<Longrightarrow> line_full (b[i := Some m]) l m' \<Longrightarrow> m' = m"
  by (cases l) (auto simp: line_full_def on_line_def cell_at_update split: if_splits)

lemma line_full_not_empty:
  "i < length b \<Longrightarrow> b ! i = None \<Longrightarrow> line_full b l m \<Longrightarrow> \<not> on_line i l"
  by (cases l) (auto simp: line_full_def on_line_def cell_at_def)

lemma new_line:
  assumes none: "firstLine b patterns = None" and i: "i < length b"
    and l: "l \<in> set patterns" and full: "line_full (b[i := Some m]) l m'"
  shows "m' = m \<and> on_line i l"
proof -
  have "on_line i l"
  proof (rule ccontr)
    assume "\<not> on_line i l"
    with full i have "line_full b l m'" by (simp add: line_full_off_line)
    with none l show False by (simp add: firstLine_None_iff)
  qed
  with line_full_on_line [OF i this full] show ?thesis by simp
qed

lemma firstLine_Some_line:
  "firstLine cells ps = Some m \<Longrightarrow> \<exists>l\<in>set ps. line_full cells l m"
  unfolding firstLine_Some_iff by (metis nth_mem)

lemma checkWinner_after_move:
  assumes none: "firstLine b patterns = None" and i: "i < length b" "b ! i = None"
  shows "checkWinner (b[i := Some m]) = Winner m' \<longleftrightarrow> m' = m \<and> completes b m i"
proof
  assume "checkWinner (b[i := Some m]) = Winner m'"
  then have "firstLine (b[i := Some m]) patterns = Some m'"
    by (simp add: checkWinner_def split: option.splits if_splits)
  then obtain l where l: "l \<in> set patterns" "line_full (b[i := Some m]) l m'"
    using firstLine_Some_line by blast
  from new_line [OF none i(1) l] l i show "m' = m \<and> completes b m i"
    unfolding completes_def by blast
next
  assume a: "m' = m \<and> completes b m i"
  then obtain l where l: "l \<in> set patterns" "line_full (b[i := Some m]) l m"
    unfolding completes_def by blast
  then have "firstLine (b[i := Some m]) patterns \<noteq> None"
    by (auto simp: firstLine_None_iff)
  then obtain m'' where m'': "firstLine (b[i := Some m]) patterns = Some m''" by blast
  then obtain l' where "l' \<in> set patterns" "line_full (b[i := Some m]) l' m''"
    using firstLine_Some_line by blast
  from new_line [OF none i(1) this] have "m'' = m" by simp
  with m'' a show "checkWinner (b[i := Some m]) = Winner m'"
    by (simp add: checkWinner_def)
qed

lemma Ongoing_no_line: "checkWinner b = Ongoing \<Longrightarrow> firstLine b patterns = None"
  by (simp add: checkWinner_def split: option.splits if_splits)

lemma DrawGame_no_line: "checkWinner b = DrawGame \<Longrightarrow> firstLine b patterns = None"
  by (simp add: checkWinner_def split: option.splits if_splits)

lemma DrawGame_full: "checkWinner b = DrawGame \<Longrightarrow> i < length b \<Longrightarrow> b ! i \<noteq> None"
  by (simp add: checkWinner_def list_all_length split: option.splits if_splits)

lemma completes_other_cell:
  assumes k: "completes b m k" and j: "j < length b" "b ! j = None" "j \<noteq> k"
  shows "completes (b[j := Some m']) m k"
proof -
  from k obtain l where l: "l \<in> set patterns" "on_line k l" "line_full (b[k := Some m]) l m"
    and kk: "k < length b" "b ! k = None"
    unfolding completes_def by blast
  have "line_full ((b[j := Some m'])[k := Some m]) l m"
    using l(3) kk j
    by (cases l) (auto simp: line_full_def cell_at_def nth_list_update split: if_splits)
  with l kk j show ?thesis
    unfolding completes_def by auto
qed

lemma completes_before_move:
  assumes j: "completes (b[k := Some m']) m j" and k: "k < length b" and diff: "m' \<noteq> m"
  shows "completes b m j"
proof -
  from j obtain l where l: "l \<in> set patterns" "on_line j l"
      "line_full ((b[k := Some m'])[j := Some m]) l m"
    and jj: "j < length b" "(b[k := Some m']) ! j = None"
    unfolding completes_def by auto
  from jj k have jk: "j \<noteq> k" by auto
  have "line_full (b[j := Some m]) l m"
    using l(3) jj k jk diff
    by (cases l) (auto simp: line_full_def cell_at_def nth_list_update split: if_splits)
  with l jj jk show ?thesis
    unfolding completes_def by auto
qed

section \<open>The loop of the move selector\<close>

lemma candidate_score:
  assumes len: "length b = 9" and i: "i < length b" "b ! i = None"
  shows "\<exists>s. minimax (b[i := Some MarkO]) 0 False NegInf PosInf = Some (s, b[i := Some MarkO])
    \<and> Fin (- 10) \<le> s \<and> s \<le> Fin 10
    \<and> (checkWinner (b[i := Some MarkO]) = Winner MarkO \<longrightarrow> s = Fin 10)
    \<and> (checkWinner (b[i := Some MarkO]) \<noteq> Winner MarkO \<longrightarrow> s < Fin 10)"
proof -
  let ?b = "b[i := Some MarkO]"
  obtain s where s: "minimax ?b 0 False NegInf PosInf = Some (s, ?b)"
    using minimax_returns by blast
  then have f: "minimax_fuel True (Suc (length ?b)) ?b 0 False NegInf PosInf = Some (s, ?b)"
    by (simp add: minimax_def)
  have room: "0 + int (length (emptyCells ?b)) \<le> 10"
    using length_emptyCells_le [of ?b] len by simp
  from minimax_fuel_range [OF _ room f]
  have r: "Fin (- 10) \<le> s" "s \<le> Fin 10"
    "checkWinner ?b = Ongoing \<Longrightarrow> s \<le> Fin 9" by simp_all
  have w: "checkWinner ?b = Winner MarkO \<Longrightarrow> s = Fin 10"
    using f by simp
  have nw: "s < Fin 10" if "checkWinner ?b \<noteq> Winner MarkO"
  proof (cases "checkWinner ?b")
    case (Winner m)
    with that have "m = MarkX" by (cases m) auto
    with Winner f show ?thesis by auto
  next
    case DrawGame
    with f show ?thesis by auto
  next
    case Ongoing
    from r(3) [OF this] show ?thesis by (cases s) auto
  qed
  from s r w nw show ?thesis by blast
qed

lemma bestLoop_in_moves:
  assumes len: "length board = 9"
  shows "\<forall>i\<in>set moves. i < length board \<and> board ! i = None \<Longrightarrow>
    \<exists>k. bestLoop board t best moves = Some (k, board)
      \<and> (k \<in> set moves \<or> (k = best \<and> (moves = [] \<or> t \<noteq> NegInf)))"
proof (induction moves arbitrary: t best)
  case Nil
  show ?case by simp
next
  case (Cons i rest)
  then have i: "i < length board" "board ! i = None" by simp_all
  from candidate_score [OF len i] obtain s where
    call: "minimax (board[i := Some MarkO]) 0 False NegInf PosInf = Some (s, board[i := Some MarkO])"
    and s: "Fin (- 10) \<le> s" by blast
  have restored: "(board[i := Some MarkO])[i := None] = board"
    using i by (simp add: update_restore)
  show ?case
  proof (cases "t < s")
    case True
    from Cons.IH [of s i] Cons.prems obtain k where
      "bestLoop board s i rest = Some (k, board)" "k \<in> set rest \<or> k = i" by auto
    with True call restored show ?thesis by auto
  next
    case False
    with s have "t \<noteq> NegInf" by (cases s) auto
    moreover from Cons.IH [of t best] Cons.prems obtain k where
      "bestLoop board t best rest = Some (k, board)"
      "k \<in> set rest \<or> (k = best \<and> (rest = [] \<or> t \<noteq> NegInf))" by auto
    ultimately show ?thesis using False call restored by auto
  qed
qed

lemma bestLoop_first_max:
  assumes sc: "\<forall>i\<in>set moves. i < length board \<and> board ! i = None
      \<and> minimax (board[i := Some MarkO]) 0 False NegInf PosInf = Some (f i, board[i := Some MarkO])"
    and le: "\<forall>i\<in>set moves. f i \<le> f k"
    and first: "\<forall>i\<in>set moves. i < k \<longrightarrow> f i < f k"
  shows "set moves' \<subseteq> set moves \<Longrightarrow> sorted moves' \<Longrightarrow>
    (k \<in> set moves' \<and> t < f k) \<or> (best = k \<and> t = f k) \<Longrightarrow>
    bestLoop board t best moves' = Some (k, board)"
proof (induction moves' arbitrary: t best)
  case Nil
  then show ?case by simp
next
  case (Cons i rest)
  from Cons.prems(1) have mem: "i \<in> set moves" "set rest \<subseteq> set moves" by simp_all
  from Cons.prems(2) have srt: "sorted rest" "\<forall>j\<in>set rest. i \<le> j" by simp_all
  from sc mem(1) have i: "board ! i = None"
    and call: "minimax (board[i := Some MarkO]) 0 False NegInf PosInf = Some (f i, board[i := Some MarkO])"
    by simp_all
  have restored: "(board[i := Some MarkO])[i := None] = board"
    using i by (simp add: update_restore)
  have step: "bestLoop board t best (i # rest) =
      (if t < f i then bestLoop board (f i) i rest else bestLoop board t best rest)"
    using call restored by simp
  have IH: "\<And>t best. (k \<in> set rest \<and> t < f k) \<or> (best = k \<and> t = f k) \<Longrightarrow>
      bestLoop board t best rest = Some (k, board)"
    using Cons.IH mem(2) srt(1) by blast
  show ?case
  proof (cases "i = k")
    case True
    show ?thesis
    proof (cases "t < f k")
      case True
      with \<open>i = k\<close> step IH Cons.prems(3) show ?thesis by auto
    next
      case False
      with Cons.prems(3) have b: "best = k \<and> t = f k" by auto
      with False \<open>i = k\<close> step IH Cons.prems(3) show ?thesis by auto
    qed
  next
    case False
    show ?thesis
    proof (cases "best = k \<and> t = f k")
      case True
      with le mem(1) have "\<not> t < f i" by auto
      with True step IH Cons.prems(3) show ?thesis by auto
    next
      case nb: False
      with Cons.prems(3) False have kin: "k \<in> set rest" "t < f k" by auto
      with srt(2) False have "i < k" by force
      with first mem(1) have lt: "f i < f k" by simp
      show ?thesis
      proof (cases "t < f i")
        case True
        with step IH kin lt show ?thesis by auto
      next
        case False
        with step IH kin Cons.prems(3) show ?thesis by auto
      qed
    qed
  qed
qed

lemma emptyCells_nonempty: "i < length b \<Longrightarrow> b ! i = None \<Longrightarrow> emptyCells b \<noteq> []"
proof -
  assume "i < length b" "b ! i = None"
  then have "i \<in> set (emptyCells b)" by (simp add: set_emptyCells)
  then show ?thesis by auto
qed

lemma emptyCells_nil: "\<forall>i<length b. b ! i \<noteq> None \<Longrightarrow> emptyCells b = []"
  by (simp add: emptyCells_filter filter_empty_conv)

lemma emptyCells_member: "k \<in> set (emptyCells b) \<Longrightarrow> k < length b \<and> b ! k = None"
  by (simp add: set_emptyCells)

text \<open>
  Claim C8. On a board of nine cells with at least one empty cell, \<open>getBestMove\<close>
  returns an index below 9 whose cell on the input board is empty.
\<close>

theorem getBestMove_empty_cell:
  assumes "length board = 9" and "\<exists>i<9. board ! i = None"
  shows "\<exists>k. getBestMove board = Some (k, board) \<and> k < 9 \<and> board ! k = None"
proof -
  have cells: "\<forall>i\<in>set (emptyCells board). i < length board \<and> board ! i = None"
    by (simp add: set_emptyCells)
  from assms obtain i where "i < length board" "board ! i = None" by auto
  then have "emptyCells board \<noteq> []" by (rule emptyCells_nonempty)
  with bestLoop_in_moves [OF assms(1) cells, of NegInf 0]
  obtain k where k: "getBestMove board = Some (k, board)" "k \<in> set (emptyCells board)"
    unfolding getBestMove_def by blast
  from emptyCells_member [OF k(2)] k(1) assms(1) show ?thesis by simp
qed

theorem getBestMove_empty_cell_witness:
  "\<exists>k. getBestMove [Some MarkX, None, Some MarkO, Some MarkO, Some MarkX, Some MarkX, None, Some MarkX, Some MarkO]
      = Some (k, [Some MarkX, None, Some MarkO, Some MarkO, Some MarkX, Some MarkX, None, Some MarkX, Some MarkO])
    \<and> k < 9
    \<and> [Some MarkX, None, Some MarkO, Some MarkO, Some MarkX, Some MarkX, None, Some MarkX, Some MarkO] ! k = None"
proof -
  have 1: "length [Some MarkX, None, Some MarkO, Some MarkO, Some MarkX, Some MarkX, None, Some MarkX, Some MarkO] = 9"
    by simp
  have 2: "\<exists>i<9. [Some MarkX, None, Some MarkO, Some MarkO, Some MarkX, Some MarkX, None, Some MarkX, Some MarkO] ! i = None"
    by (intro exI [of _ 1]) simp
  from getBestMove_empty_cell [OF 1 2] show ?thesis .
qed

text \<open>
  Claim C6, as amended. The claim asks for an explicit failure of \<open>getBestMove\<close> on a
  board with no legal move. The source has no failing path: on the full drawn board of
  the counterexample the call returns the initial value 0 of \<^verbatim>\<open>bestMove\<close>, the index of
  an occupied cell. What holds is that on every board of nine cells the call returns
  normally: index 0 when no cell is empty, and otherwise (terminal or not) the index of
  an empty cell. The caller keeps terminal and full boards away
  (\<^verbatim>\<open>!winner && board.includes(null)\<close>).
\<close>

theorem getBestMove_no_error:
  assumes "length board = 9"
  shows "\<exists>k. getBestMove board = Some (k, board)
    \<and> (if \<forall>i<9. board ! i \<noteq> None then k = 0 else k < 9 \<and> board ! k = None)"
proof (cases "\<forall>i<9. board ! i \<noteq> None")
  case True
  with assms have "emptyCells board = []"
    by (simp add: emptyCells_nil)
  with True show ?thesis by (simp add: getBestMove_def)
next
  case False
  have cells: "\<forall>i\<in>set (emptyCells board). i < length board \<and> board ! i = None"
    by (simp add: set_emptyCells)
  from False assms obtain i where "i < length board" "board ! i = None" by auto
  then have "emptyCells board \<noteq> []" by (rule emptyCells_nonempty)
  with bestLoop_in_moves [OF assms cells, of NegInf 0]
  obtain k where k: "getBestMove board = Some (k, board)" "k \<in> set (emptyCells board)"
    unfolding getBestMove_def by blast
  from emptyCells_member [OF k(2)] assms have "k < 9 \<and> board ! k = None" by simp
  with k(1) show ?thesis
    unfolding if_not_P [OF False] by blast
qed

theorem getBestMove_no_error_witness:
  "\<exists>k. getBestMove [Some MarkX, Some MarkX, Some MarkX, Some MarkO, Some MarkO, None, None, None, None]
      = Some (k, [Some MarkX, Some MarkX, Some MarkX, Some MarkO, Some MarkO, None, None, None, None])
    \<and> k < 9
    \<and> [Some MarkX, Some MarkX, Some MarkX, Some MarkO, Some MarkO, None, None, None, None] ! k = None"
proof -
  have 1: "length [Some MarkX, Some MarkX, Some MarkX, Some MarkO, Some MarkO, None, None, None, None] = 9"
    by simp
  have 2: "\<not> (\<forall>i<9. [Some MarkX, Some MarkX, Some MarkX, Some MarkO, Some MarkO, None, None, None, None] ! i \<noteq> None)"
    by (simp add: not_all) (intro exI [of _ 5], simp)
  from getBestMove_no_error [OF 1] show ?thesis
    unfolding if_not_P [OF 2] .
qed

theorem getBestMove_full_board_counterexample:
  "checkWinner [Some MarkX, Some MarkO, Some MarkX, Some MarkO, Some MarkX, Some MarkO, Some MarkO, Some MarkX, Some MarkO] = DrawGame
   \<and> getBestMove [Some MarkX, Some MarkO, Some MarkX, Some MarkO, Some MarkX, Some MarkO, Some MarkO, Some MarkX, Some MarkO]
      = Some (0, [Some MarkX, Some MarkO, Some MarkX, Some MarkO, Some MarkX, Some MarkO, Some MarkO, Some MarkX, Some MarkO])
   \<and> [Some MarkX, Some MarkO, Some MarkX, Some MarkO, Some MarkX, Some MarkO, Some MarkO, Some MarkX, Some MarkO] ! 0 = Some MarkX"
  by (simp add: getBestMove_def emptyCells_def checkWinner_def patterns_def cell_at_def)

text \<open>
  Claim C9. \<open>getBestMove\<close> reads nothing but its argument, and it hands the array back
  as it received it: the call returns, and a second call on the array the first call
  left behind returns the identical result.
\<close>

theorem getBestMove_deterministic:
  "\<exists>k. getBestMove board = Some (k, board)
     \<and> (\<forall>r. getBestMove board = Some r \<longrightarrow> getBestMove (snd r) = Some r)"
  using getBestMove_returns [of board] by auto

theorem getBestMove_deterministic_witness:
  "\<exists>k. getBestMove [Some MarkX, None, Some MarkO, Some MarkO, Some MarkX, Some MarkX, None, Some MarkX, Some MarkO]
      = Some (k, [Some MarkX, None, Some MarkO, Some MarkO, Some MarkX, Some MarkX, None, Some MarkX, Some MarkO])
    \<and> getBestMove (snd (k, [Some MarkX, None, Some MarkO, Some MarkO, Some MarkX, Some MarkX, None, Some MarkX, Some MarkO]))
      = Some (k, [Some MarkX, None, Some MarkO, Some MarkO, Some MarkX, Some MarkX, None, Some MarkX, Some MarkO])"
proof -
  let ?b = "[Some MarkX, None, Some MarkO, Some MarkO, Some MarkX, Some MarkX, None, Some MarkX, Some MarkO]"
  from getBestMove_deterministic [of ?b] obtain k where
    a: "getBestMove ?b = Some (k, ?b)"
    and b: "\<forall>r. getBestMove ?b = Some r \<longrightarrow> getBestMove (snd r) = Some r" by blast
  from b a have "getBestMove (snd (k, ?b)) = Some (k, ?b)" by blast
  with a show ?thesis by blast
qed

text \<open>
  Claim C3. On every board of nine cells on which \<^verbatim>\<open>'O'\<close> has a one-move win,
  \<open>getBestMove\<close> returns a cell that wins at once, never another cell: the winning
  cell of lowest index. On a board that is not terminal the one-move wins are exactly the
  empty cells whose placement completes a win-line. On
  \<^verbatim>\<open>[O,O,empty,X,X,empty,empty,empty,empty]\<close> the call returns 2.
\<close>

theorem getBestMove_takes_win:
  assumes len: "length board = 9" and win: "winning_cell board MarkO i"
  shows "(\<exists>k. getBestMove board = Some (k, board) \<and> winning_cell board MarkO k)
    \<and> ((\<forall>j<i. \<not> winning_cell board MarkO j) \<longrightarrow> getBestMove board = Some (i, board))
    \<and> (checkWinner board = Ongoing \<longrightarrow>
          (\<forall>j. winning_cell board MarkO j \<longleftrightarrow> completes board MarkO j))"
proof -
  define f where "f j = fst (the (minimax (board[j := Some MarkO]) 0 False NegInf PosInf))" for j
  have val: "minimax (board[j := Some MarkO]) 0 False NegInf PosInf = Some (f j, board[j := Some MarkO])"
    if "j < length board" "board ! j = None" for j
    using candidate_score [OF len that] by (auto simp: f_def)
  have first: "getBestMove board = Some (k, board)"
    if k: "winning_cell board MarkO k" and least: "\<forall>j<k. \<not> winning_cell board MarkO j" for k
  proof -
    from k have kk: "k < length board" "board ! k = None"
      and kw: "checkWinner (board[k := Some MarkO]) = Winner MarkO"
      by (simp_all add: winning_cell_def)
    have sc: "\<forall>j\<in>set (emptyCells board). j < length board \<and> board ! j = None
        \<and> minimax (board[j := Some MarkO]) 0 False NegInf PosInf = Some (f j, board[j := Some MarkO])"
    proof
      fix j assume "j \<in> set (emptyCells board)"
      then have j: "j < length board" "board ! j = None" by (simp_all add: set_emptyCells)
      from val [OF j] j show "j < length board \<and> board ! j = None
        \<and> minimax (board[j := Some MarkO]) 0 False NegInf PosInf = Some (f j, board[j := Some MarkO])"
        by simp
    qed
    have fk: "f k = Fin 10"
      using candidate_score [OF len kk] kw val [OF kk] by auto
    have le: "\<forall>j\<in>set (emptyCells board). f j \<le> f k"
    proof
      fix j assume "j \<in> set (emptyCells board)"
      then have j: "j < length board" "board ! j = None" by (simp_all add: set_emptyCells)
      from candidate_score [OF len j] val [OF j] show "f j \<le> f k" by (auto simp: fk)
    qed
    have lt: "\<forall>j\<in>set (emptyCells board). j < k \<longrightarrow> f j < f k"
    proof (intro ballI impI)
      fix j assume "j \<in> set (emptyCells board)" and "j < k"
      then have j: "j < length board" "board ! j = None" and "\<not> winning_cell board MarkO j"
        using least by (simp_all add: set_emptyCells)
      then have "checkWinner (board[j := Some MarkO]) \<noteq> Winner MarkO"
        by (simp add: winning_cell_def)
      with candidate_score [OF len j] val [OF j] show "f j < f k" by (auto simp: fk)
    qed
    have "k \<in> set (emptyCells board) \<and> NegInf < f k"
      using kk fk by (simp add: set_emptyCells)
    then have start: "(k \<in> set (emptyCells board) \<and> NegInf < f k) \<or> (0 = k \<and> NegInf = f k)"
      by blast
    from bestLoop_first_max [OF sc le lt subset_refl sorted_emptyCells start]
    show ?thesis by (simp add: getBestMove_def)
  qed
  define k0 where "k0 = (LEAST k. winning_cell board MarkO k)"
  from win have "winning_cell board MarkO k0"
    unfolding k0_def by (rule LeastI)
  moreover have "\<forall>j<k0. \<not> winning_cell board MarkO j"
    unfolding k0_def using not_less_Least by blast
  ultimately have some: "\<exists>k. getBestMove board = Some (k, board) \<and> winning_cell board MarkO k"
    using first by blast
  have lines: "winning_cell board MarkO j \<longleftrightarrow> completes board MarkO j"
    if ongoing: "checkWinner board = Ongoing" for j
  proof (cases "j < length board \<and> board ! j = None")
    case True
    from ongoing have none: "firstLine board patterns = None" by (rule Ongoing_no_line)
    from checkWinner_after_move [OF none, of j MarkO MarkO] True show ?thesis
      by (simp add: winning_cell_def)
  next
    case False
    then show ?thesis by (auto simp: winning_cell_def completes_def)
  qed
  from some first win lines show ?thesis by blast
qed

theorem getBestMove_takes_win_witness:
  "getBestMove [Some MarkO, Some MarkO, None, Some MarkX, Some MarkX, None, None, None, None]
     = Some (2, [Some MarkO, Some MarkO, None, Some MarkX, Some MarkX, None, None, None, None])"
proof -
  let ?b = "[Some MarkO, Some MarkO, None, Some MarkX, Some MarkX, None, None, None, None]"
  have 1: "length ?b = 9" by simp
  have 2: "winning_cell ?b MarkO 2"
    by (simp add: winning_cell_def checkWinner_def patterns_def cell_at_def)
  have 3: "\<forall>j<2. \<not> winning_cell ?b MarkO j"
    by (simp add: winning_cell_def less_Suc_eq numeral_2_eq_2)
  from getBestMove_takes_win [OF 1 2] 3 show ?thesis by blast
qed

section \<open>Scores of the replies to a threat\<close>

text \<open>
  The minimizing loop never returns more than its running minimum; searched with
  \<open>alpha = -\<infinity>\<close> it never cuts off, so it sees every move and returns at most the score
  of a move that wins at once; and it returns at least a common lower bound of its moves.
\<close>

lemma minLoop_le_acc:
  "minLoop p n board d a be m moves = Some (s, b') \<Longrightarrow> s \<le> m"
proof (induction moves arbitrary: board be m)
  case Nil
  then show ?case by simp
next
  case (Cons mv rest)
  from Cons.prems obtain r b1 where
    call: "minimax_fuel p n (board[mv := Some MarkX]) (d + 1) True a be = Some (r, b1)"
    by (auto split: option.splits)
  show ?case
  proof (cases "p \<and> min be r \<le> a")
    case True
    with Cons.prems call show ?thesis by auto
  next
    case False
    with Cons.prems call
    have "minLoop p n (b1[mv := None]) d a (min be r) (min m r) rest = Some (s, b')" by auto
    from Cons.IH [OF this] show ?thesis by simp
  qed
qed

lemma minLoop_reaches_win:
  assumes d: "0 \<le> d" and room: "d + int (length (emptyCells board)) \<le> 10"
    and win: "checkWinner (board[k := Some MarkX]) = Winner MarkX"
  shows "\<forall>i\<in>set moves. i < length board \<and> board ! i = None \<Longrightarrow> k \<in> set moves \<Longrightarrow>
    NegInf < be \<Longrightarrow> minLoop p (Suc n) board d NegInf be m moves = Some (s, b') \<Longrightarrow>
    s \<le> Fin (d - 9)"
proof (induction moves arbitrary: be m)
  case Nil
  then show ?case by simp
next
  case (Cons mv rest)
  then have mv: "mv < length board" "board ! mv = None" by simp_all
  from Cons.prems(4) obtain r b1 where
    call: "minimax_fuel p (Suc n) (board[mv := Some MarkX]) (d + 1) True NegInf be = Some (r, b1)"
    by (auto split: option.splits)
  have "d + 1 + int (length (emptyCells (board[mv := Some MarkX]))) \<le> 10"
    using length_emptyCells_update [OF mv, of MarkX] room by linarith
  from minimax_fuel_range [OF _ this call] d have r: "Fin (d - 9) \<le> r" by simp
  from minimax_fuel_frame [OF call] mv have restored: "b1[mv := None] = board"
    by (simp add: update_restore)
  from r Cons.prems(3) have be': "NegInf < min be r"
    by (cases r; cases be) (auto simp: min_def)
  then have "\<not> min be r \<le> NegInf" by (simp add: not_le)
  with Cons.prems(4) call restored
  have rest: "minLoop p (Suc n) board d NegInf (min be r) (min m r) rest = Some (s, b')"
    by auto
  show ?case
  proof (cases "mv = k")
    case True
    with call win have "r = Fin (d - 9)" by simp
    moreover from minLoop_le_acc [OF rest] have "s \<le> r" by simp
    ultimately show ?thesis by simp
  next
    case False
    with Cons.prems(2) have "k \<in> set rest" by simp
    from Cons.IH [OF _ this be' rest] Cons.prems(1) show ?thesis by simp
  qed
qed

lemma minLoop_lower:
  assumes ch: "\<And>mv a be r b1. mv \<in> set moves \<Longrightarrow>
      minimax_fuel p n (board[mv := Some MarkX]) (d + 1) True a be = Some (r, b1) \<Longrightarrow> L \<le> r"
  shows "\<forall>i\<in>set moves'. board ! i = None \<Longrightarrow> set moves' \<subseteq> set moves \<Longrightarrow> L \<le> m \<Longrightarrow>
    minLoop p n board d a be m moves' = Some (s, b') \<Longrightarrow> L \<le> s"
proof (induction moves' arbitrary: be m)
  case Nil
  then show ?case by simp
next
  case (Cons mv rest)
  then have mv: "board ! mv = None" "mv \<in> set moves" by simp_all
  from Cons.prems(4) obtain r b1 where
    call: "minimax_fuel p n (board[mv := Some MarkX]) (d + 1) True a be = Some (r, b1)"
    by (auto split: option.splits)
  from ch [OF mv(2) call] have r: "L \<le> r" .
  with Cons.prems(3) have m': "L \<le> min m r" by simp
  from minimax_fuel_frame [OF call] mv have restored: "b1[mv := None] = board"
    by (simp add: update_restore)
  show ?case
  proof (cases "p \<and> min be r \<le> a")
    case True
    with Cons.prems(4) call m' show ?thesis by auto
  next
    case False
    with Cons.prems(4) call restored
    have "minLoop p n board d a (min be r) (min m r) rest = Some (s, b')" by auto
    from Cons.IH [OF _ _ m' this] Cons.prems(1,2) show ?thesis by simp
  qed
qed

lemma no_win_after_move:
  assumes none: "firstLine b patterns = None" and j: "j < length b" "b ! j = None"
    and nc: "\<not> completes b m j"
  shows "checkWinner (b[j := Some m]) = DrawGame \<or> checkWinner (b[j := Some m]) = Ongoing"
proof (cases "checkWinner (b[j := Some m])")
  case (Winner m')
  with checkWinner_after_move [OF none j, of m m'] nc show ?thesis by simp
qed simp_all

lemma minimax_fuel_DrawGame:
  "checkWinner b = DrawGame \<Longrightarrow> minimax_fuel p n b d c a be = Some (r, b1) \<Longrightarrow> r = Fin 0"
  by (cases n) auto

lemma unblocked_score:
  assumes len: "length board = 9" and none: "firstLine board patterns = None"
    and threat: "completes board MarkX k"
    and j: "j < length board" "board ! j = None" "j \<noteq> k"
    and nowin: "\<not> completes board MarkO j"
    and call: "minimax (board[j := Some MarkO]) 0 False NegInf PosInf = Some (s, b')"
  shows "s = Fin (- 9)"
proof -
  let ?b = "board[j := Some MarkO]"
  from threat have k: "k < length board" "board ! k = None"
    by (simp_all add: completes_def)
  from k j have k1: "k < length ?b" "?b ! k = None" by simp_all
  have "checkWinner ?b \<noteq> DrawGame"
    using DrawGame_full [of ?b k] k1 by auto
  with no_win_after_move [OF none j(1,2) nowin] have ongoing: "checkWinner ?b = Ongoing"
    by simp
  then have none1: "firstLine ?b patterns = None" by (rule Ongoing_no_line)
  from completes_other_cell [OF threat j] have "completes ?b MarkX k" .
  with checkWinner_after_move [OF none1 k1, of MarkX MarkX]
  have win: "checkWinner (?b[k := Some MarkX]) = Winner MarkX" by simp
  have room: "0 + int (length (emptyCells ?b)) \<le> 10"
    using length_emptyCells_le [of ?b] len by simp
  from call have f: "minimax_fuel True (Suc (length ?b)) ?b 0 False NegInf PosInf = Some (s, b')"
    unfolding minimax_def .
  with ongoing have "minLoop True (length board) ?b 0 NegInf PosInf PosInf (emptyCells ?b) = Some (s, b')"
    by simp
  moreover have "length board = Suc 8" using len by simp
  ultimately have loop: "minLoop True (Suc 8) ?b 0 NegInf PosInf PosInf (emptyCells ?b) = Some (s, b')"
    by (simp only:)
  have cells: "\<forall>i\<in>set (emptyCells ?b). i < length ?b \<and> ?b ! i = None"
    by (simp add: set_emptyCells)
  have kin: "k \<in> set (emptyCells ?b)"
    using k1 by (simp add: set_emptyCells)
  from minLoop_reaches_win [OF _ room win cells kin _ loop] have "s \<le> Fin (- 9)" by simp
  moreover from minimax_fuel_range [OF _ room f] ongoing have "Fin (- 9) \<le> s" by simp
  ultimately show ?thesis by simp
qed

lemma blocked_score:
  assumes len: "length board = 9" and none: "firstLine board patterns = None"
    and k: "k < length board" "board ! k = None"
    and only: "\<forall>j. completes board MarkX j \<longrightarrow> j = k"
    and nowin: "\<not> completes board MarkO k"
    and call: "minimax (board[k := Some MarkO]) 0 False NegInf PosInf = Some (s, b')"
  shows "Fin (- 8) \<le> s"
proof -
  let ?b = "board[k := Some MarkO]"
  from call have f: "minimax_fuel True (Suc (length ?b)) ?b 0 False NegInf PosInf = Some (s, b')"
    unfolding minimax_def .
  from no_win_after_move [OF none k nowin]
  have "checkWinner ?b = DrawGame \<or> checkWinner ?b = Ongoing" .
  then show ?thesis
  proof
    assume "checkWinner ?b = DrawGame"
    from minimax_fuel_DrawGame [OF this f] show ?thesis by simp
  next
    assume ongoing: "checkWinner ?b = Ongoing"
    then have none1: "firstLine ?b patterns = None" by (rule Ongoing_no_line)
    from f ongoing
    have loop: "minLoop True (length board) ?b 0 NegInf PosInf PosInf (emptyCells ?b) = Some (s, b')"
      by simp
    have child: "Fin (- 8) \<le> r"
      if mv: "mv \<in> set (emptyCells ?b)"
        and c: "minimax_fuel True (length board) (?b[mv := Some MarkX]) (0 + 1) True a be = Some (r, b1)"
      for mv a be r b1
    proof -
      let ?c = "?b[mv := Some MarkX]"
      from mv have m1: "mv < length ?b" "?b ! mv = None" by (simp_all add: set_emptyCells)
      have "\<not> completes ?b MarkX mv"
      proof
        assume "completes ?b MarkX mv"
        from completes_before_move [OF this k(1)] only have "mv = k" by simp
        with m1 k show False by simp
      qed
      from no_win_after_move [OF none1 m1 this]
      have "checkWinner ?c = DrawGame \<or> checkWinner ?c = Ongoing" .
      then show ?thesis
      proof
        assume "checkWinner ?c = DrawGame"
        from minimax_fuel_DrawGame [OF this c] show ?thesis by simp
      next
        assume o: "checkWinner ?c = Ongoing"
        have "(0::int) + 1 + int (length (emptyCells ?c)) \<le> 10"
          using length_emptyCells_le [of ?c] len by simp
        from minimax_fuel_range [OF _ this c] o show ?thesis by simp
      qed
    qed
    have cells: "\<forall>i\<in>set (emptyCells ?b). ?b ! i = None"
      by (simp add: set_emptyCells)
    from minLoop_lower [of "emptyCells ?b" True "length board" ?b 0 "Fin (- 8)", OF child cells subset_refl _ loop]
    show ?thesis by simp
  qed
qed

lemma completes_emptyCells: "completes b m j \<Longrightarrow> j \<in> set (emptyCells b)"
  by (simp add: completes_def set_emptyCells)

text \<open>
  Claim C4. On a board of nine cells that is not terminal, where exactly one cell \<open>k\<close>
  completes a line for \<^verbatim>\<open>'X'\<close> and no cell completes a line for \<^verbatim>\<open>'O'\<close>,
  \<open>getBestMove\<close> returns \<open>k\<close>: every other move scores \<open>-9\<close> (the opponent wins at
  depth 1), the block scores at least \<open>-8\<close>.
\<close>

theorem getBestMove_blocks:
  assumes len: "length board = 9" and ongoing: "checkWinner board = Ongoing"
    and threat: "completes board MarkX k"
    and only: "\<forall>j. completes board MarkX j \<longrightarrow> j = k"
    and nowin: "\<forall>j. \<not> completes board MarkO j"
  shows "getBestMove board = Some (k, board)"
proof -
  define f where "f j = fst (the (minimax (board[j := Some MarkO]) 0 False NegInf PosInf))" for j
  have none: "firstLine board patterns = None"
    using ongoing by (rule Ongoing_no_line)
  from threat have kk: "k < length board" "board ! k = None"
    by (simp_all add: completes_def)
  have val: "minimax (board[j := Some MarkO]) 0 False NegInf PosInf = Some (f j, board[j := Some MarkO])"
    if "j < length board" "board ! j = None" for j
    using candidate_score [OF len that] by (auto simp: f_def)
  have others: "f j = Fin (- 9)" if "j \<in> set (emptyCells board)" "j \<noteq> k" for j
  proof -
    from that have j: "j < length board" "board ! j = None" by (simp_all add: set_emptyCells)
    from unblocked_score [OF len none threat j that(2) _ val [OF j]] nowin
    show ?thesis by simp
  qed
  have fk: "Fin (- 8) \<le> f k"
    using blocked_score [OF len none kk only _ val [OF kk]] nowin by simp
  have sc: "\<forall>j\<in>set (emptyCells board). j < length board \<and> board ! j = None
      \<and> minimax (board[j := Some MarkO]) 0 False NegInf PosInf = Some (f j, board[j := Some MarkO])"
  proof
    fix j assume "j \<in> set (emptyCells board)"
    then have j: "j < length board" "board ! j = None" by (simp_all add: set_emptyCells)
    from val [OF j] j show "j < length board \<and> board ! j = None
      \<and> minimax (board[j := Some MarkO]) 0 False NegInf PosInf = Some (f j, board[j := Some MarkO])"
      by simp
  qed
  have lt: "f j < f k" if "j \<in> set (emptyCells board)" "j \<noteq> k" for j
  proof -
    from fk have "Fin (- 9) < f k" by (cases "f k") auto
    with others [OF that] show ?thesis by simp
  qed
  have le: "\<forall>j\<in>set (emptyCells board). f j \<le> f k"
  proof
    fix j assume j: "j \<in> set (emptyCells board)"
    show "f j \<le> f k"
    proof (cases "j = k")
      case True
      then show ?thesis by simp
    next
      case False
      from lt [OF j False] show ?thesis by simp
    qed
  qed
  have first: "\<forall>j\<in>set (emptyCells board). j < k \<longrightarrow> f j < f k"
    using lt by auto
  from fk have "NegInf < f k" by (cases "f k") auto
  with kk have "(k \<in> set (emptyCells board) \<and> NegInf < f k) \<or> (0 = k \<and> NegInf = f k)"
    by (simp add: set_emptyCells)
  from bestLoop_first_max [OF sc le first subset_refl sorted_emptyCells this]
  show ?thesis by (simp add: getBestMove_def)
qed

theorem getBestMove_blocks_witness:
  "getBestMove [Some MarkX, Some MarkX, None, None, Some MarkO, None, None, None, None]
     = Some (2, [Some MarkX, Some MarkX, None, None, Some MarkO, None, None, None, None])"
proof -
  let ?b = "[Some MarkX, Some MarkX, None, None, Some MarkO, None, None, None, None]"
  have e: "emptyCells ?b = [2, 3, 5, 6, 7, 8]"
    by (simp add: emptyCells_def)
  have 1: "length ?b = 9" by simp
  have 2: "checkWinner ?b = Ongoing"
    by (simp add: checkWinner_def patterns_def cell_at_def)
  have 3: "completes ?b MarkX 2"
    by (simp add: completes_def patterns_def on_line_def line_full_def cell_at_def)
  have "\<forall>j\<in>set (emptyCells ?b). completes ?b MarkX j \<longrightarrow> j = 2"
    unfolding e by (simp add: completes_def patterns_def on_line_def line_full_def cell_at_def)
  then have 4: "\<forall>j. completes ?b MarkX j \<longrightarrow> j = 2"
    using completes_emptyCells by blast
  have "\<forall>j\<in>set (emptyCells ?b). \<not> completes ?b MarkO j"
    unfolding e by (simp add: completes_def patterns_def on_line_def line_full_def cell_at_def)
  then have 5: "\<forall>j. \<not> completes ?b MarkO j"
    using completes_emptyCells by blast
  from getBestMove_blocks [OF 1 2 3 4 5] show ?thesis .
qed

section \<open>The cutoff does not change the score\<close>

lemma fail_soft_refl: "fail_soft a b v v"
  by (simp add: fail_soft_def)

lemma fail_soft_full: "fail_soft NegInf PosInf v r \<Longrightarrow> r = v"
  by (cases r; cases v) (auto simp: fail_soft_def)

lemma max_step:
  fixes al :: score
  assumes "al = max a0 m" "al < be" "pm \<le> m" "a0 < m \<longrightarrow> pm = m"
    "fail_soft al be vc rc" "\<not> be \<le> max al rc"
  shows "max al rc = max a0 (max m rc)" "max al rc < be" "max pm vc \<le> max m rc"
    "a0 < max m rc \<longrightarrow> max pm vc = max m rc"
  using assms unfolding fail_soft_def by (auto simp: max_def split: if_splits)

lemma max_cut:
  fixes al :: score
  assumes "al = max a0 m" "al < be" "fail_soft al be vc rc" "be \<le> max al rc" "max pm vc \<le> v"
  shows "fail_soft a0 be v (max m rc)"
  using assms unfolding fail_soft_def by (auto simp: max_def split: if_splits)

lemma min_step:
  fixes al :: score
  assumes "be = min b0 m" "al < be" "m \<le> pm" "m < b0 \<longrightarrow> pm = m"
    "fail_soft al be vc rc" "\<not> min be rc \<le> al"
  shows "min be rc = min b0 (min m rc)" "al < min be rc" "min m rc \<le> min pm vc"
    "min m rc < b0 \<longrightarrow> min pm vc = min m rc"
  using assms unfolding fail_soft_def by (auto simp: min_def split: if_splits)

lemma min_cut:
  fixes al :: score
  assumes "be = min b0 m" "al < be" "fail_soft al be vc rc" "min be rc \<le> al" "v \<le> min pm vc"
  shows "fail_soft al b0 v (min m rc)"
  using assms unfolding fail_soft_def by (auto simp: min_def split: if_splits)

lemma maxLoop_ge_acc:
  "maxLoop p n board d a be m moves = Some (s, b') \<Longrightarrow> m \<le> s"
proof (induction moves arbitrary: board a m)
  case Nil
  then show ?case by simp
next
  case (Cons mv rest)
  from Cons.prems obtain r b1 where
    call: "minimax_fuel p n (board[mv := Some MarkO]) (d + 1) False a be = Some (r, b1)"
    by (auto split: option.splits)
  show ?case
  proof (cases "p \<and> be \<le> max a r")
    case True
    with Cons.prems call show ?thesis by auto
  next
    case False
    with Cons.prems call
    have "maxLoop p n (b1[mv := None]) d (max a r) be (max m r) rest = Some (s, b')" by auto
    from Cons.IH [OF this] show ?thesis by simp
  qed
qed

text \<open>
  The loops with the cutoff against the loops without it. \<open>a0\<close> and \<open>b0\<close> are the
  bounds the node was entered with; \<open>m\<close> and \<open>pm\<close> are the running results of the two
  loops.
\<close>

lemma maxLoop_prune:
  assumes IH: "\<And>b c a be a' be' r v b1 b2. a < be \<Longrightarrow>
      minimax_fuel True n b (d + 1) c a be = Some (r, b1) \<Longrightarrow>
      minimax_fuel False n b (d + 1) c a' be' = Some (v, b2) \<Longrightarrow> fail_soft a be v r"
  shows "\<forall>i\<in>set moves. board ! i = None \<Longrightarrow>
    al = max a0 m \<Longrightarrow> al < be \<Longrightarrow> pm \<le> m \<Longrightarrow> (a0 < m \<longrightarrow> pm = m) \<Longrightarrow>
    maxLoop True n board d al be m moves = Some (r, b1) \<Longrightarrow>
    maxLoop False n board d al' be' pm moves = Some (v, b2) \<Longrightarrow>
    fail_soft a0 be v r"
proof (induction moves arbitrary: al m pm al')
  case Nil
  then show ?case by (auto simp: fail_soft_def)
next
  case (Cons mv rest)
  then have mv: "board ! mv = None" by simp
  from Cons.prems(6) obtain rc c1 where
    callT: "minimax_fuel True n (board[mv := Some MarkO]) (d + 1) False al be = Some (rc, c1)"
    by (auto split: option.splits)
  from Cons.prems(7) obtain vc c2 where
    callF: "minimax_fuel False n (board[mv := Some MarkO]) (d + 1) False al' be' = Some (vc, c2)"
    by (auto split: option.splits)
  from minimax_fuel_frame [OF callT] mv have backT: "c1[mv := None] = board"
    by (simp add: update_restore)
  from minimax_fuel_frame [OF callF] mv have backF: "c2[mv := None] = board"
    by (simp add: update_restore)
  from IH [OF Cons.prems(3) callT callF] have child: "fail_soft al be vc rc" .
  from Cons.prems(7) callF backF
  have plain: "maxLoop False n board d (max al' vc) be' (max pm vc) rest = Some (v, b2)"
    by simp
  show ?case
  proof (cases "be \<le> max al rc")
    case True
    with Cons.prems(6) callT have r: "r = max m rc" by simp
    from maxLoop_ge_acc [OF plain] have "max pm vc \<le> v" .
    from max_cut [OF Cons.prems(2,3) child True this] r show ?thesis by simp
  next
    case False
    with Cons.prems(6) callT backT
    have pruned: "maxLoop True n board d (max al rc) be (max m rc) rest = Some (r, b1)"
      by simp
    note st = max_step [OF Cons.prems(2,3,4,5) child False]
    from Cons.IH [OF _ st pruned plain] Cons.prems(1) show ?thesis by simp
  qed
qed

lemma minLoop_prune:
  assumes IH: "\<And>b c a be a' be' r v b1 b2. a < be \<Longrightarrow>
      minimax_fuel True n b (d + 1) c a be = Some (r, b1) \<Longrightarrow>
      minimax_fuel False n b (d + 1) c a' be' = Some (v, b2) \<Longrightarrow> fail_soft a be v r"
  shows "\<forall>i\<in>set moves. board ! i = None \<Longrightarrow>
    be = min b0 m \<Longrightarrow> al < be \<Longrightarrow> m \<le> pm \<Longrightarrow> (m < b0 \<longrightarrow> pm = m) \<Longrightarrow>
    minLoop True n board d al be m moves = Some (r, b1) \<Longrightarrow>
    minLoop False n board d al' be' pm moves = Some (v, b2) \<Longrightarrow>
    fail_soft al b0 v r"
proof (induction moves arbitrary: be m pm be')
  case Nil
  then show ?case by (auto simp: fail_soft_def)
next
  case (Cons mv rest)
  then have mv: "board ! mv = None" by simp
  from Cons.prems(6) obtain rc c1 where
    callT: "minimax_fuel True n (board[mv := Some MarkX]) (d + 1) True al be = Some (rc, c1)"
    by (auto split: option.splits)
  from Cons.prems(7) obtain vc c2 where
    callF: "minimax_fuel False n (board[mv := Some MarkX]) (d + 1) True al' be' = Some (vc, c2)"
    by (auto split: option.splits)
  from minimax_fuel_frame [OF callT] mv have backT: "c1[mv := None] = board"
    by (simp add: update_restore)
  from minimax_fuel_frame [OF callF] mv have backF: "c2[mv := None] = board"
    by (simp add: update_restore)
  from IH [OF Cons.prems(3) callT callF] have child: "fail_soft al be vc rc" .
  from Cons.prems(7) callF backF
  have plain: "minLoop False n board d al' (min be' vc) (min pm vc) rest = Some (v, b2)"
    by simp
  show ?case
  proof (cases "min be rc \<le> al")
    case True
    with Cons.prems(6) callT have r: "r = min m rc" by simp
    from minLoop_le_acc [OF plain] have "v \<le> min pm vc" .
    from min_cut [OF Cons.prems(2,3) child True this] r show ?thesis by simp
  next
    case False
    with Cons.prems(6) callT backT
    have pruned: "minLoop True n board d al (min be rc) (min m rc) rest = Some (r, b1)"
      by simp
    note st = min_step [OF Cons.prems(2,3,4,5) child False]
    from Cons.IH [OF _ st pruned plain] Cons.prems(1) show ?thesis by simp
  qed
qed

lemma minimax_fuel_prune:
  "a < be \<Longrightarrow> minimax_fuel True n b d c a be = Some (r, b1) \<Longrightarrow>
   minimax_fuel False n b d c a' be' = Some (v, b2) \<Longrightarrow> fail_soft a be v r"
proof (induction n arbitrary: b d c a be a' be' r v b1 b2)
  case 0
  then show ?case by simp
next
  case (Suc n)
  have empties: "\<forall>i\<in>set (emptyCells b). b ! i = None"
    by (simp add: set_emptyCells)
  show ?case
  proof (cases "checkWinner b")
    case (Winner m)
    with Suc.prems(2,3) have "r = v" by (cases m) auto
    then show ?thesis by (simp add: fail_soft_refl)
  next
    case DrawGame
    with Suc.prems(2,3) have "r = v" by auto
    then show ?thesis by (simp add: fail_soft_refl)
  next
    case Ongoing
    show ?thesis
    proof (cases c)
      case True
      with Ongoing Suc.prems(2,3)
      have t: "maxLoop True n b d a be NegInf (emptyCells b) = Some (r, b1)"
        and f: "maxLoop False n b d a' be' NegInf (emptyCells b) = Some (v, b2)"
        by simp_all
      have 1: "a = max a NegInf" by simp
      have 2: "NegInf \<le> NegInf" by simp
      have 3: "a < NegInf \<longrightarrow> NegInf = NegInf" by simp
      from maxLoop_prune [OF Suc.IH empties 1 Suc.prems(1) 2 3 t f] show ?thesis .
    next
      case False
      with Ongoing Suc.prems(2,3)
      have t: "minLoop True n b d a be PosInf (emptyCells b) = Some (r, b1)"
        and f: "minLoop False n b d a' be' PosInf (emptyCells b) = Some (v, b2)"
        by simp_all
      have 1: "be = min be PosInf" by simp
      have 2: "PosInf \<le> PosInf" by simp
      have 3: "PosInf < be \<longrightarrow> PosInf = PosInf" by simp
      from minLoop_prune [OF Suc.IH empties 1 Suc.prems(1) 2 3 t f] show ?thesis .
    qed
  qed
qed

text \<open>
  Claim C2. For every board, depth and flag, \<open>minimax\<close> called with the bounds
  \<open>-\<infinity>\<close> and \<open>+\<infinity>\<close> returns the score that the same recursion without the test
  \<^verbatim>\<open>if (beta <= alpha) break\<close> returns.
\<close>

theorem pruning_preserves_score:
  "\<exists>s. minimax board depth isCPU NegInf PosInf = Some (s, board)
     \<and> minimax_noprune board depth isCPU NegInf PosInf = Some (s, board)"
proof -
  obtain r where r: "minimax board depth isCPU NegInf PosInf = Some (r, board)"
    using minimax_returns by blast
  obtain v where v: "minimax_noprune board depth isCPU NegInf PosInf = Some (v, board)"
    using minimax_noprune_returns by blast
  have "fail_soft NegInf PosInf v r"
    using r v unfolding minimax_def minimax_noprune_def
    by (rule minimax_fuel_prune [rotated]) simp
  then have "r = v" by (rule fail_soft_full)
  with r v show ?thesis by simp
qed

theorem pruning_preserves_score_witness:
  "\<exists>s. minimax [Some MarkX, None, Some MarkO, None, Some MarkX, None, None, None, Some MarkO] 1 True NegInf PosInf
       = Some (s, [Some MarkX, None, Some MarkO, None, Some MarkX, None, None, None, Some MarkO])
     \<and> minimax_noprune [Some MarkX, None, Some MarkO, None, Some MarkX, None, None, None, Some MarkO] 1 True NegInf PosInf
       = Some (s, [Some MarkX, None, Some MarkO, None, Some MarkX, None, None, None, Some MarkO])"
  by (rule pruning_preserves_score)

section \<open>Optimal play from the empty board\<close>

text \<open>Exchanging the marks exchanges the roles of the two sides.\<close>

lemma otherMark_twice: "otherMark (otherMark m) = m"
  by (cases m) simp_all

lemma otherMark_inject: "otherMark a = otherMark b \<longleftrightarrow> a = b"
  by (cases a; cases b) simp_all

lemma swapMarks_twice: "swapMarks (swapMarks board) = board"
proof -
  have "map_option otherMark (map_option otherMark x) = x" for x
    by (cases x) (simp_all add: otherMark_twice)
  then show ?thesis
    by (simp add: swapMarks_def comp_def)
qed

lemma cell_at_swapMarks: "cell_at (swapMarks board) i = map_option otherMark (cell_at board i)"
  by (simp add: cell_at_def swapMarks_def)

lemma line_full_swapMarks: "line_full (swapMarks board) l (otherMark m) = line_full board l m"
proof -
  have "map_option otherMark x = Some (otherMark m) \<longleftrightarrow> x = Some m" for x
    by (cases x) (simp_all add: otherMark_inject)
  then show ?thesis
    by (cases l) (simp add: line_full_def cell_at_swapMarks)
qed

lemma firstLine_swapMarks:
  "firstLine (swapMarks board) ps = map_option otherMark (firstLine board ps)"
proof (induction ps)
  case Nil
  show ?case by simp
next
  case (Cons l rest)
  show ?case
  proof (cases "\<exists>m. line_full board l m")
    case True
    then obtain m where m: "line_full board l m" by blast
    then have "line_full (swapMarks board) l (otherMark m)"
      by (simp add: line_full_swapMarks)
    from firstLine_hit [OF this] firstLine_hit [OF m] show ?thesis by simp
  next
    case False
    have "\<not> line_full (swapMarks board) l m" for m
      using False line_full_swapMarks [of board l "otherMark m"]
      by (simp add: otherMark_twice)
    then have "firstLine (swapMarks board) (l # rest) = firstLine (swapMarks board) rest"
      by (simp add: firstLine_miss)
    moreover from False have "firstLine board (l # rest) = firstLine board rest"
      by (simp add: firstLine_miss)
    ultimately show ?thesis using Cons by simp
  qed
qed

lemma Ongoing_swapMarks: "checkWinner (swapMarks board) = Ongoing \<longleftrightarrow> checkWinner board = Ongoing"
proof -
  have a: "list_all (\<lambda>val. val \<noteq> None) (swapMarks board) = list_all (\<lambda>val. val \<noteq> None) board"
    by (simp add: swapMarks_def list_all_length)
  have b: "firstLine (swapMarks board) patterns = None \<longleftrightarrow> firstLine board patterns = None"
    by (simp add: firstLine_swapMarks)
  have c: "checkWinner x = Ongoing \<longleftrightarrow>
      firstLine x patterns = None \<and> \<not> list_all (\<lambda>val. val \<noteq> None) x" for x
    by (cases "firstLine x patterns") (simp_all add: checkWinner_def)
  show ?thesis
    unfolding c a b ..
qed

lemma view_swapMarks: "view (otherMark m) (swapMarks board) = view m board"
  by (cases m) (simp_all add: swapMarks_twice)

lemma selfPlay_swapMarks:
  "selfPlay n (otherMark m) (swapMarks board) = map_option swapMarks (selfPlay n m board)"
proof (induction n arbitrary: m board)
  case 0
  show ?case by (simp add: Ongoing_swapMarks)
next
  case (Suc n)
  have upd: "(swapMarks board)[i := Some (otherMark m)] = swapMarks (board[i := Some m])" for i
    by (simp add: swapMarks_def map_update)
  show ?case
  proof (cases "checkWinner board = Ongoing")
    case False
    then show ?thesis by (simp add: Ongoing_swapMarks)
  next
    case True
    obtain k where k: "getBestMove (view m board) = Some (k, view m board)"
      using getBestMove_returns by blast
    from True k show ?thesis
      by (simp add: Ongoing_swapMarks view_swapMarks upd Suc.IH)
  qed
qed

text \<open>
  Equations for boards of nine cells, for evaluating the searches of the game inside the
  kernel.
\<close>

lemma emptyCells_Nil: "emptyCells [] = []"
  by (simp add: emptyCells_def)

lemma emptyCells_Cons:
  "emptyCells (x # xs) = (if x = None then 0 # map Suc (emptyCells xs) else map Suc (emptyCells xs))"
proof -
  have "[0..<Suc (length xs)] = 0 # map Suc [0..<length xs]"
    by (simp add: upt_conv_Cons map_Suc_upt del: upt_Suc)
  then have "emptyCells (x # xs) =
      filter (\<lambda>i. (x # xs) ! i = None) (0 # map Suc [0..<length xs])"
    by (simp add: emptyCells_filter del: upt_Suc)
  also have "\<dots> = (if x = None then 0 # map Suc (emptyCells xs) else map Suc (emptyCells xs))"
    by (simp add: emptyCells_filter filter_map comp_def)
  finally show ?thesis .
qed

lemma cell_at9:
  "cell_at [a, b, c, d, e, f, g, h, i] 0 = a"
  "cell_at [a, b, c, d, e, f, g, h, i] 1 = b"
  "cell_at [a, b, c, d, e, f, g, h, i] 2 = c"
  "cell_at [a, b, c, d, e, f, g, h, i] 3 = d"
  "cell_at [a, b, c, d, e, f, g, h, i] 4 = e"
  "cell_at [a, b, c, d, e, f, g, h, i] 5 = f"
  "cell_at [a, b, c, d, e, f, g, h, i] 6 = g"
  "cell_at [a, b, c, d, e, f, g, h, i] 7 = h"
  "cell_at [a, b, c, d, e, f, g, h, i] 8 = i"
  by (simp_all add: cell_at_def)

lemma firstLine9:
  "firstLine [a, b, c, d, e, f, g, h, i] patterns =
    (if a \<noteq> None \<and> a = b \<and> a = c then a
     else if d \<noteq> None \<and> d = e \<and> d = f then d
     else if g \<noteq> None \<and> g = h \<and> g = i then g
     else if a \<noteq> None \<and> a = d \<and> a = g then a
     else if b \<noteq> None \<and> b = e \<and> b = h then b
     else if c \<noteq> None \<and> c = f \<and> c = i then c
     else if a \<noteq> None \<and> a = e \<and> a = i then a
     else if c \<noteq> None \<and> c = e \<and> c = g then c
     else None)"
  by (simp only: patterns_def firstLine.simps cell_at9)

lemma checkWinner9 [code]:
  "checkWinner [a, b, c, d, e, f, g, h, i] =
    (case (if a \<noteq> None \<and> a = b \<and> a = c then a
     else if d \<noteq> None \<and> d = e \<and> d = f then d
     else if g \<noteq> None \<and> g = h \<and> g = i then g
     else if a \<noteq> None \<and> a = d \<and> a = g then a
     else if b \<noteq> None \<and> b = e \<and> b = h then b
     else if c \<noteq> None \<and> c = f \<and> c = i then c
     else if a \<noteq> None \<and> a = e \<and> a = i then a
     else if c \<noteq> None \<and> c = e \<and> c = g then c
     else None) of
       Some m \<Rightarrow> Winner m
     | None \<Rightarrow>
         if a \<noteq> None \<and> b \<noteq> None \<and> c \<noteq> None \<and> d \<noteq> None \<and> e \<noteq> None
            \<and> f \<noteq> None \<and> g \<noteq> None \<and> h \<noteq> None \<and> i \<noteq> None
         then DrawGame else Ongoing)"
  by (simp only: checkWinner_def list.pred_inject simp_thms firstLine9)

declare emptyCells_Nil [code] emptyCells_Cons [code]

text \<open>The nine candidates of the first move all score 0.\<close>

lemma first_move_0:
  "minimax [Some MarkO, None, None, None, None, None, None, None, None] 0 False NegInf PosInf
     = Some (Fin 0, [Some MarkO, None, None, None, None, None, None, None, None])"
  by code_simp

lemma first_move_1:
  "minimax [None, Some MarkO, None, None, None, None, None, None, None] 0 False NegInf PosInf
     = Some (Fin 0, [None, Some MarkO, None, None, None, None, None, None, None])"
  by code_simp

lemma first_move_2:
  "minimax [None, None, Some MarkO, None, None, None, None, None, None] 0 False NegInf PosInf
     = Some (Fin 0, [None, None, Some MarkO, None, None, None, None, None, None])"
  by code_simp

lemma first_move_3:
  "minimax [None, None, None, Some MarkO, None, None, None, None, None] 0 False NegInf PosInf
     = Some (Fin 0, [None, None, None, Some MarkO, None, None, None, None, None])"
  by code_simp

lemma first_move_4:
  "minimax [None, None, None, None, Some MarkO, None, None, None, None] 0 False NegInf PosInf
     = Some (Fin 0, [None, None, None, None, Some MarkO, None, None, None, None])"
  by code_simp

lemma first_move_5:
  "minimax [None, None, None, None, None, Some MarkO, None, None, None] 0 False NegInf PosInf
     = Some (Fin 0, [None, None, None, None, None, Some MarkO, None, None, None])"
  by code_simp

lemma first_move_6:
  "minimax [None, None, None, None, None, None, Some MarkO, None, None] 0 False NegInf PosInf
     = Some (Fin 0, [None, None, None, None, None, None, Some MarkO, None, None])"
  by code_simp

lemma first_move_7:
  "minimax [None, None, None, None, None, None, None, Some MarkO, None] 0 False NegInf PosInf
     = Some (Fin 0, [None, None, None, None, None, None, None, Some MarkO, None])"
  by code_simp

lemma first_move_8:
  "minimax [None, None, None, None, None, None, None, None, Some MarkO] 0 False NegInf PosInf
     = Some (Fin 0, [None, None, None, None, None, None, None, None, Some MarkO])"
  by code_simp

lemma getBestMove_first_move:
  "getBestMove [None, None, None, None, None, None, None, None, None] = Some (0, [None, None, None, None, None, None, None, None, None])"
  by (simp add: getBestMove_def emptyCells_Cons emptyCells_Nil first_move_0 first_move_1 first_move_2 first_move_3 first_move_4 first_move_5 first_move_6 first_move_7 first_move_8)

lemma selfPlay_after_first_move:
  "selfPlay 8 MarkO [Some MarkX, None, None, None, None, None, None, None, None]
     = Some [Some MarkX, Some MarkX, Some MarkO, Some MarkO, Some MarkO, Some MarkX, Some MarkX, Some MarkO, Some MarkX]"
  by code_simp

text \<open>
  Claim C7. From the empty board, with both sides taking the move of \<open>getBestMove\<close> at
  each turn, the game reaches a full board for which \<open>checkWinner\<close> reports a draw,
  whichever side moves first (in the source \<^verbatim>\<open>'X'\<close> does).
\<close>

theorem optimal_play_draws:
  "selfPlay 9 MarkX (replicate 9 None)
     = Some [Some MarkX, Some MarkX, Some MarkO, Some MarkO, Some MarkO, Some MarkX, Some MarkX, Some MarkO, Some MarkX]
   \<and> checkWinner [Some MarkX, Some MarkX, Some MarkO, Some MarkO, Some MarkO, Some MarkX, Some MarkX, Some MarkO, Some MarkX] = DrawGame
   \<and> selfPlay 9 MarkO (replicate 9 None)
     = Some [Some MarkO, Some MarkO, Some MarkX, Some MarkX, Some MarkX, Some MarkO, Some MarkO, Some MarkX, Some MarkO]
   \<and> checkWinner [Some MarkO, Some MarkO, Some MarkX, Some MarkX, Some MarkX, Some MarkO, Some MarkO, Some MarkX, Some MarkO] = DrawGame"
proof -
  let ?e = "[None, None, None, None, None, None, None, None, None] :: board"
  have e: "replicate 9 None = ?e"
    by (simp add: numeral_eq_Suc)
  have nine: "(9::nat) = Suc 8" by simp
  have step: "selfPlay (Suc 8) MarkX ?e = selfPlay 8 MarkO [Some MarkX, None, None, None, None, None, None, None, None]"
    by (simp only: selfPlay.simps) (simp add: checkWinner9 swapMarks_def getBestMove_first_move)
  have x: "selfPlay 9 MarkX ?e
      = Some [Some MarkX, Some MarkX, Some MarkO, Some MarkO, Some MarkO, Some MarkX, Some MarkX, Some MarkO, Some MarkX]"
    unfolding nine step by (rule selfPlay_after_first_move)
  have "selfPlay 9 (otherMark MarkX) (swapMarks ?e) = map_option swapMarks (selfPlay 9 MarkX ?e)"
    by (rule selfPlay_swapMarks)
  with x have o: "selfPlay 9 MarkO ?e
      = Some [Some MarkO, Some MarkO, Some MarkX, Some MarkX, Some MarkX, Some MarkO, Some MarkO, Some MarkX, Some MarkO]"
    by (simp add: swapMarks_def)
  have d: "checkWinner [Some MarkX, Some MarkX, Some MarkO, Some MarkO, Some MarkO, Some MarkX, Some MarkX, Some MarkO, Some MarkX] = DrawGame"
    "checkWinner [Some MarkO, Some MarkO, Some MarkX, Some MarkX, Some MarkX, Some MarkO, Some MarkO, Some MarkX, Some MarkO] = DrawGame"
    by (simp_all add: checkWinner9)
  from x o d show ?thesis
    unfolding e by blast
qed

theorem optimal_play_draws_witness:
  "(\<exists>final. selfPlay 9 MarkX (replicate 9 None) = Some final \<and> checkWinner final = DrawGame)
   \<and> (\<exists>final. selfPlay 9 MarkO (replicate 9 None) = Some final \<and> checkWinner final = DrawGame)"
  using optimal_play_draws by blast

end
